theory Spec2Isabelle
  imports Complex_Main "HOL-Library.Sublist" "HOL-Library.Char_ord" "HOL-Library.List_Lexorder"
begin

section \<open>Python strings\<close>

text \<open>
  A Python \<open>str\<close> is a sequence of code points. It is modelled as \<open>string\<close>, one
  \<open>char\<close> per code point, which covers the code points 0 to 255; \<open>length\<close> is
  Python's \<open>len\<close>.
\<close>

definition code_point :: "char \<Rightarrow> nat" where
  "code_point c = of_char c"

text \<open>The regular expression class \<open>[a-zA-Z0-9]\<close>.\<close>

definition is_alnum :: "char \<Rightarrow> bool" where
  "is_alnum c = ((97 \<le> code_point c \<and> code_point c \<le> 122) \<or> (65 \<le> code_point c \<and> code_point c \<le> 90)
                 \<or> (48 \<le> code_point c \<and> code_point c \<le> 57))"

text \<open>
  The characters \<open>str.strip()\<close> removes when called without an argument: the code points
  for which \<open>str.isspace\<close> holds (below 256: TAB, LF, VT, FF, CR, the separators
  0x1C to 0x1F, SPACE, NEL 0x85 and NBSP 0xA0).
\<close>

definition is_space :: "char \<Rightarrow> bool" where
  "is_space c = ((9 \<le> code_point c \<and> code_point c \<le> 13) \<or> (28 \<le> code_point c \<and> code_point c \<le> 32)
                 \<or> code_point c = 133 \<or> code_point c = 160)"

text \<open>\<open>s.lstrip(chars)\<close>, \<open>s.rstrip(chars)\<close> and \<open>s.strip(chars)\<close>, for a set of characters
  given as a predicate.\<close>

definition lstrip_by :: "(char \<Rightarrow> bool) \<Rightarrow> string \<Rightarrow> string" where
  "lstrip_by p s = dropWhile p s"

definition rstrip_by :: "(char \<Rightarrow> bool) \<Rightarrow> string \<Rightarrow> string" where
  "rstrip_by p s = rev (dropWhile p (rev s))"

definition strip_by :: "(char \<Rightarrow> bool) \<Rightarrow> string \<Rightarrow> string" where
  "strip_by p s = rstrip_by p (lstrip_by p s)"

text \<open>\<open>s.strip()\<close>.\<close>

definition strip :: "string \<Rightarrow> string" where
  "strip s = strip_by is_space s"

text \<open>\<open>s.startswith(p)\<close>.\<close>

definition startswith :: "string \<Rightarrow> string \<Rightarrow> bool" where
  "startswith s p = (take (length p) s = p)"

text \<open>
  \<open>s.rfind(sub)\<close>: the highest index at which \<open>sub\<close> occurs in \<open>s\<close>, and \<open>-1\<close> when
  it does not occur.
\<close>

definition rfind :: "string \<Rightarrow> string \<Rightarrow> int" where
  "rfind s sub =
     (case filter (\<lambda>i. take (length sub) (drop i s) = sub) (rev [0 ..< Suc (length s)]) of
        [] \<Rightarrow> - 1
      | i # _ \<Rightarrow> int i)"

text \<open>
  The slice \<open>s[i:j]\<close> with Python's treatment of indices: a negative index counts from
  the end, and every index is clamped to the string.
\<close>

definition slice_index :: "nat \<Rightarrow> int \<Rightarrow> nat" where
  "slice_index n i = (if i < 0 then nat (max (i + int n) 0) else min (nat i) n)"

definition py_slice :: "string \<Rightarrow> int \<Rightarrow> int \<Rightarrow> string" where
  "py_slice s i j =
     (let lo = slice_index (length s) i; hi = slice_index (length s) j
      in take (hi - lo) (drop lo s))"

section \<open>DocumentProcessor.chunk\_text\<close>

text \<open>
  The test \<open>last_break > chunk_size * 0.3\<close> compares an integer with a float, which
  Python does exactly. The product is the double nearest to three tenths of
  \<open>chunk_size\<close>: it is that number itself when \<open>chunk_size\<close> is a multiple of ten,
  and otherwise it stays on the same side of every integer as the exact value, which is
  at least a tenth away from each (for chunk sizes below \<open>2^50\<close>). So for an
  integer \<open>p\<close> the test is \<open>10 * p > 3 * chunk_size\<close>.
\<close>

definition past_threshold :: "int \<Rightarrow> int \<Rightarrow> bool" where
  "past_threshold p chunk_size = (3 * chunk_size < 10 * p)"

definition code_fence :: string where
  "code_fence = ''```''"

definition paragraph_break :: string where
  "paragraph_break = [CHR 0x0A, CHR 0x0A]"

definition sentence_break :: string where
  "sentence_break = ''. ''"

text \<open>The value of \<open>end\<close> after the search for a natural boundary, in one iteration of
  the loop that stands at offset \<open>start\<close>.\<close>

definition chunk_end :: "string \<Rightarrow> int \<Rightarrow> int \<Rightarrow> int" where
  "chunk_end text chunk_size start =
     (let end0 = min (start + chunk_size) (int (length text));
          chunk = py_slice text start end0;
          last_code_block = rfind chunk code_fence;
          last_paragraph_break = rfind chunk paragraph_break;
          last_sentence_break = rfind chunk sentence_break
      in if past_threshold last_code_block chunk_size then start + last_code_block
         else if past_threshold last_paragraph_break chunk_size then start + last_paragraph_break
         else if past_threshold last_sentence_break chunk_size then start + last_sentence_break + 1
         else end0)"

text \<open>The \<open>while start < text_length\<close> loop; \<open>chunks\<close> is the list built so far.\<close>

function chunk_loop :: "string \<Rightarrow> int \<Rightarrow> int \<Rightarrow> string list \<Rightarrow> string list" where
  "chunk_loop text chunk_size start chunks =
     (if start < int (length text)
      then (let end = chunk_end text chunk_size start;
                chunk = strip (py_slice text start end)
            in chunk_loop text chunk_size (max (start + 1) end)
                 (if chunk \<noteq> [] then chunks @ [chunk] else chunks))
      else chunks)"
  by pat_completeness auto
termination
  by (relation "measure (\<lambda>(text, chunk_size, start, chunks). nat (int (length text) - start))")
     auto

definition chunk_text :: "string \<Rightarrow> int \<Rightarrow> string list" where
  "chunk_text text chunk_size = chunk_loop text chunk_size 0 []"




section \<open>urllib.parse.urlparse\<close>

text \<open>
  \<open>urlparse\<close> belongs to Python's standard library, not to the repository. The
  definitions below follow \<open>urllib.parse\<close> of CPython 3.11 step by step. The library
  raises \<open>ValueError\<close> for a network location with unbalanced or ill-formed square
  brackets and for some non-ASCII network locations; those inputs are outside this model.
\<close>

record parse_result =
  scheme :: string
  netloc :: string
  path :: string
  params :: string
  query :: string
  fragment :: string

definition is_ascii_alpha :: "char \<Rightarrow> bool" where
  "is_ascii_alpha c = ((97 \<le> code_point c \<and> code_point c \<le> 122)
                       \<or> (65 \<le> code_point c \<and> code_point c \<le> 90))"

text \<open>\<open>scheme_chars\<close>: letters, digits and \<open>+-.\<close>\<close>

definition scheme_char :: "char \<Rightarrow> bool" where
  "scheme_char c = (is_alnum c \<or> c = CHR ''+'' \<or> c = CHR ''-'' \<or> c = CHR ''.'')"

text \<open>\<open>str.lower\<close> on one character of a scheme.\<close>

definition lower_char :: "char \<Rightarrow> char" where
  "lower_char c = (if 65 \<le> code_point c \<and> code_point c \<le> 90
                   then char_of (code_point c + 32) else c)"

text \<open>The characters stripped from the left of a URL (C0 controls and space) and the
  characters removed from it wherever they stand (TAB, CR, LF).\<close>

definition c0_control_or_space :: "char \<Rightarrow> bool" where
  "c0_control_or_space c = (code_point c \<le> 32)"

definition unsafe_url_byte :: "char \<Rightarrow> bool" where
  "unsafe_url_byte c = (code_point c = 9 \<or> code_point c = 13 \<or> code_point c = 10)"

text \<open>\<open>s.split(sep, 1)\<close> for a separator that occurs in \<open>s\<close>; when it does not occur
  the first component is \<open>s\<close> and the second is empty.\<close>

definition split_once :: "char \<Rightarrow> string \<Rightarrow> string \<times> string" where
  "split_once sep s = (takeWhile (\<lambda>c. c \<noteq> sep) s, drop 1 (dropWhile (\<lambda>c. c \<noteq> sep) s))"

text \<open>The scheme: the text before the first colon, when it starts with an ASCII letter
  and consists of scheme characters.\<close>

definition split_scheme :: "string \<Rightarrow> string \<times> string" where
  "split_scheme url =
     (let head = takeWhile (\<lambda>c. c \<noteq> CHR '':'') url
      in if CHR '':'' \<in> set url \<and> (case head of [] \<Rightarrow> False | c # _ \<Rightarrow> is_ascii_alpha c)
            \<and> list_all scheme_char head
         then (map lower_char head, drop (Suc (length head)) url)
         else ([], url))"

text \<open>\<open>_splitnetloc(url, 2)\<close>: the network location runs from index 2 to the first of
  \<open>/\<close>, \<open>?\<close> and \<open>#\<close>.\<close>

definition netloc_char :: "char \<Rightarrow> bool" where
  "netloc_char c = (c \<noteq> CHR ''/'' \<and> c \<noteq> CHR ''?'' \<and> c \<noteq> CHR ''#'')"

definition splitnetloc :: "string \<Rightarrow> string \<times> string" where
  "splitnetloc url = (takeWhile netloc_char (drop 2 url), dropWhile netloc_char (drop 2 url))"

definition urlsplit :: "string \<Rightarrow> parse_result" where
  "urlsplit url0 =
     (let url1 = filter (\<lambda>c. \<not> unsafe_url_byte c) (lstrip_by c0_control_or_space url0);
          (scheme', url2) = split_scheme url1;
          (netloc', url3) = (if take 2 url2 = ''//'' then splitnetloc url2 else ([], url2));
          (url4, fragment') = split_once (CHR ''#'') url3;
          (url5, query') = split_once (CHR ''?'') url4
      in \<lparr>scheme = scheme', netloc = netloc', path = url5, params = [],
          query = query', fragment = fragment'\<rparr>)"

definition uses_params :: "string list" where
  "uses_params = ['''', ''ftp'', ''hdl'', ''prospero'', ''http'', ''imap'', ''https'', ''shttp'',
                  ''rtsp'', ''rtsps'', ''rtspu'', ''sip'', ''sips'', ''mms'', ''sftp'', ''tel'']"

text \<open>\<open>_splitparams\<close>: the parameters start at the first semicolon of the last path
  segment.\<close>

definition splitparams :: "string \<Rightarrow> string \<times> string" where
  "splitparams url =
     (let last_segment = rev (takeWhile (\<lambda>c. c \<noteq> CHR ''/'') (rev url));
          before = take (length url - length last_segment) url
      in if CHR '';'' \<in> set last_segment
         then (before @ takeWhile (\<lambda>c. c \<noteq> CHR '';'') last_segment,
               drop 1 (dropWhile (\<lambda>c. c \<noteq> CHR '';'') last_segment))
         else (url, []))"

definition urlparse :: "string \<Rightarrow> parse_result" where
  "urlparse url =
     (let r = urlsplit url
      in if scheme r \<in> set uses_params \<and> CHR '';'' \<in> set (path r)
         then (case splitparams (path r) of (p, ps) \<Rightarrow> r\<lparr>path := p, params := ps\<rparr>)
         else r)"

section \<open>utils\<close>

definition is_valid_url :: "string \<Rightarrow> bool" where
  "is_valid_url url = (startswith url ''http://'' \<or> startswith url ''https://'')"

definition get_domain :: "string \<Rightarrow> string" where
  "get_domain url = netloc (urlparse url)"

definition should_crawl_url :: "string \<Rightarrow> string \<Rightarrow> bool" where
  "should_crawl_url url start_url =
     (let start_parsed = urlparse start_url;
          url_parsed = urlparse url
      in netloc start_parsed = netloc url_parsed
         \<and> startswith (path url_parsed) (path start_parsed))"

section \<open>DocumentProcessor.sanitize\_filename\<close>

text \<open>\<open>re.sub(r'[^a-zA-Z0-9]', '_', raw_name)\<close> replaces each character outside the class,
  one for one.\<close>

definition sub_non_alnum :: "string \<Rightarrow> string" where
  "sub_non_alnum s = map (\<lambda>c. if is_alnum c then c else CHR ''_'') s"

definition sanitize_filename :: "string \<Rightarrow> string" where
  "sanitize_filename url =
     (let parsed = urlparse url;
          raw_name = netloc parsed @ ''_'' @ strip_by (\<lambda>c. c = CHR ''/'') (path parsed);
          safe_name = take 200 (strip_by (\<lambda>c. c = CHR ''_'') (sub_non_alnum raw_name))
      in safe_name)"

section \<open>OllamaClient\<close>

text \<open>
  The values Python's \<open>json\<close> module produces. A JSON object is a \<open>dict\<close>, kept as an
  association list and read with \<open>map_of\<close>.
\<close>

datatype json =
    JNull
  | JBool bool
  | JNum real
  | JStr string
  | JList "json list"
  | JDict "(string \<times> json) list"

datatype py_error =
    TransportError
  | HTTPStatusError
  | JSONDecodeError
  | AttributeError
  | TypeError
  | KeyError

text \<open>
  What one HTTP request to the Ollama server comes to: the request itself raises, or
  \<open>raise_for_status\<close> raises, or there is a body, which \<open>response.json()\<close> decodes
  (\<open>None\<close> when the body is not JSON and \<open>response.json()\<close> raises).
\<close>

datatype http_outcome =
    Transport_failed
  | Status_failed
  | Body "json option"

definition error_pair :: json where
  "error_pair = JDict [(''title'', JStr ''Error processing title''),
                       (''summary'', JStr ''Error processing summary'')]"

text \<open>
  \<open>get_title_and_summary\<close>, given the outcome of its one request. \<open>loads\<close> stands for
  \<open>json.loads\<close> on a string (\<open>None\<close> when it raises \<open>JSONDecodeError\<close>). Every
  exception is caught inside the method: \<open>JSONDecodeError\<close> by the inner handler, the
  others (\<open>AttributeError\<close> of \<open>.get\<close> on a body that is no object, \<open>TypeError\<close> of
  \<open>json.loads\<close> on a value that is no string) by the outer one.
\<close>

definition get_title_and_summary :: "(string \<Rightarrow> json option) \<Rightarrow> http_outcome \<Rightarrow> json" where
  "get_title_and_summary loads outcome =
     (case outcome of
        Transport_failed \<Rightarrow> error_pair
      | Status_failed \<Rightarrow> error_pair
      | Body None \<Rightarrow> error_pair
      | Body (Some (JDict body)) \<Rightarrow>
          (case map_of body ''response'' of
             Some (JDict data) \<Rightarrow> JDict data
           | Some (JStr data) \<Rightarrow> (case loads data of None \<Rightarrow> error_pair | Some v \<Rightarrow> v)
           | _ \<Rightarrow> error_pair)
      | Body (Some _) \<Rightarrow> error_pair)"

text \<open>
  \<open>retry_with_backoff\<close>: \<open>func k\<close> is what the \<open>k\<close>-th call of the wrapped function
  comes to. The result carries the list of waiting times passed to \<open>asyncio.sleep\<close>.
  The loop \<open>for attempt in range(max_retries)\<close> that ends without a \<open>return\<close> yields
  Python's \<open>None\<close>.
\<close>

function retry_from ::
  "(nat \<Rightarrow> py_error + 'a) \<Rightarrow> nat \<Rightarrow> nat \<Rightarrow> nat list \<Rightarrow> (py_error + 'a option) \<times> nat list" where
  "retry_from func max_retries attempt slept =
     (if attempt < max_retries
      then (case func attempt of
              Inr v \<Rightarrow> (Inr (Some v), slept)
            | Inl e \<Rightarrow>
                if attempt = max_retries - 1 then (Inl e, slept)
                else retry_from func max_retries (attempt + 1) (slept @ [2 ^ attempt]))
      else (Inr None, slept))"
  by pat_completeness auto
termination
  by (relation "measure (\<lambda>(func, max_retries, attempt, slept). max_retries - attempt)") auto

declare retry_from.simps [simp del]

definition retry_with_backoff ::
  "(nat \<Rightarrow> py_error + 'a) \<Rightarrow> nat \<Rightarrow> (py_error + 'a option) \<times> nat list" where
  "retry_with_backoff func max_retries = retry_from func max_retries 0 []"

definition zero_embedding :: json where
  "zero_embedding = JList (replicate 768 (JNum 0))"

text \<open>The inner \<open>_get_embedding\<close>, given the outcome of its request.\<close>

definition embedding_of :: "http_outcome \<Rightarrow> py_error + json" where
  "embedding_of outcome =
     (case outcome of
        Transport_failed \<Rightarrow> Inl TransportError
      | Status_failed \<Rightarrow> Inl HTTPStatusError
      | Body None \<Rightarrow> Inl JSONDecodeError
      | Body (Some (JDict body)) \<Rightarrow>
          Inr (case map_of body ''embedding'' of Some v \<Rightarrow> v | None \<Rightarrow> zero_embedding)
      | Body (Some _) \<Rightarrow> Inl AttributeError)"

text \<open>\<open>get_embedding\<close>: \<open>outcomes k\<close> is the outcome of the \<open>k\<close>-th request. The second
  component is the list of waiting times.\<close>

definition get_embedding :: "(nat \<Rightarrow> http_outcome) \<Rightarrow> json \<times> nat list" where
  "get_embedding outcomes =
     (case retry_with_backoff (\<lambda>k. embedding_of (outcomes k)) 3 of
        (Inr (Some v), slept) \<Rightarrow> (v, slept)
      | (Inr None, slept) \<Rightarrow> (JNull, slept)
      | (Inl e, slept) \<Rightarrow> (zero_embedding, slept))"

section \<open>DocumentProcessor.process\_chunk and save\_chunk\_to\_file\<close>

record chunk_metadata =
  md_source :: string
  md_chunk_size :: nat
  md_crawled_at :: string
  md_url_path :: string

record processed_chunk =
  pc_url :: string
  pc_chunk_number :: int
  pc_title :: json
  pc_summary :: json
  pc_content :: string
  pc_metadata :: chunk_metadata
  pc_embedding :: json

text \<open>The subscription \<open>value[key]\<close> with a string key: \<open>KeyError\<close> for a \<open>dict\<close>
  without the key, \<open>TypeError\<close> for every value that is no \<open>dict\<close>.\<close>

definition subscript :: "json \<Rightarrow> string \<Rightarrow> py_error + json" where
  "subscript v key =
     (case v of
        JDict d \<Rightarrow> (case map_of d key of Some x \<Rightarrow> Inr x | None \<Rightarrow> Inl KeyError)
      | _ \<Rightarrow> Inl TypeError)"

text \<open>
  \<open>process_chunk\<close>: \<open>summary_outcome\<close> is the outcome of the request for title and
  summary, \<open>embed_outcomes\<close> those of the requests for the embedding, \<open>now\<close> the time
  stamp. The method has no handler of its own, so an exception of a subscription leaves
  it.
\<close>

definition process_chunk ::
  "(string \<Rightarrow> json option) \<Rightarrow> http_outcome \<Rightarrow> (nat \<Rightarrow> http_outcome) \<Rightarrow> string
     \<Rightarrow> string \<Rightarrow> int \<Rightarrow> string \<Rightarrow> py_error + processed_chunk" where
  "process_chunk loads summary_outcome embed_outcomes now chunk chunk_number url =
     (let extracted = get_title_and_summary loads summary_outcome;
          embedding = fst (get_embedding embed_outcomes);
          metadata = \<lparr>md_source = url, md_chunk_size = length chunk, md_crawled_at = now,
                      md_url_path = path (urlparse url)\<rparr>
      in case subscript extracted ''title'' of
           Inl e \<Rightarrow> Inl e
         | Inr title \<Rightarrow>
             (case subscript extracted ''summary'' of
                Inl e \<Rightarrow> Inl e
              | Inr summary \<Rightarrow>
                  Inr \<lparr>pc_url = url, pc_chunk_number = chunk_number, pc_title = title,
                       pc_summary = summary, pc_content = chunk, pc_metadata = metadata,
                       pc_embedding = embedding\<rparr>))"

text \<open>\<open>str(n)\<close> for an integer, as the f-string of the file name formats it.\<close>

fun digits :: "nat \<Rightarrow> string" where
  "digits n = (if n < 10 then [char_of (48 + n)] else digits (n div 10) @ [char_of (48 + n mod 10)])"

declare digits.simps [simp del]

definition str_int :: "int \<Rightarrow> string" where
  "str_int i = (if i < 0 then CHR ''-'' # digits (nat (- i)) else digits (nat i))"

definition chunk_filename :: "processed_chunk \<Rightarrow> string" where
  "chunk_filename chunk =
     sanitize_filename (pc_url chunk) @ ''_chunk_'' @ str_int (pc_chunk_number chunk) @ ''.json''"

text \<open>
  \<open>save_chunk_to_file\<close> on the files of the output directory, a map from file names to
  the record written. Opening a file for writing replaces what it held. \<open>writable\<close>
  is false when creating the directory or opening the file raises; the handler logs
  the error and nothing is written.
\<close>

definition save_chunk_to_file ::
  "bool \<Rightarrow> processed_chunk \<Rightarrow> (string \<rightharpoonup> processed_chunk) \<Rightarrow> (string \<rightharpoonup> processed_chunk)" where
  "save_chunk_to_file writable chunk files =
     (if writable then files(chunk_filename chunk \<mapsto> chunk) else files)"

section \<open>SitemapGenerator\<close>

record sitemap =
  sm_domain :: string
  sm_start_url :: string
  sm_urls :: "string set"

definition add_url :: "sitemap \<Rightarrow> string \<Rightarrow> sitemap" where
  "add_url s url = (if get_domain url = sm_domain s then s\<lparr>sm_urls := insert url (sm_urls s)\<rparr> else s)"


definition dquote :: string where
  "dquote = [CHR 0x22]"







section \<open>WebCrawler\<close>

text \<open>
  What \<open>crawler.arun\<close> comes to: a result with \<open>success\<close> set, a result without, or
  an exception. A successful result carries \<open>markdown_v2.raw_markdown\<close>, the \<open>href\<close>
  of every entry of \<open>markdown_v2.links\<close> (\<open>None\<close> when the attribute is missing) and
  the \<open>href\<close> of every anchor of \<open>cleaned_html\<close> (\<open>None\<close> when the attribute is
  missing).
\<close>

datatype crawl_result =
    Fetched string "string list option" "string list option"
  | Failed
  | Raised

record crawl_config =
  cfg_start_url :: string
  cfg_max_concurrent :: nat
  cfg_max_retries :: int
  cfg_urljoin :: "string \<Rightarrow> string \<Rightarrow> string"

text \<open>
  The state the workers share: the two sets of the \<open>WebCrawler\<close>, its sitemap, the
  queue \<open>urls_to_process\<close> and the number of calls of \<open>progress.update\<close>. \<open>fetched\<close> lists the URLs
  \<open>crawler.arun\<close> was called with, in the order of the calls, and \<open>sleeps\<close> counts the
  calls of \<open>asyncio.sleep(1)\<close>.
\<close>

record crawler =
  processed_urls :: "string set"
  queued_urls :: "string set"
  crawler_sitemap :: sitemap
  urls_to_process :: "string list"
  progress :: nat
  fetched :: "string list"
  sleeps :: nat

text \<open>The test at the head of \<open>process_url\<close>.\<close>

definition skip_url :: "string \<Rightarrow> string \<Rightarrow> crawler \<Rightarrow> bool" where
  "skip_url start_url url s =
     (url \<in> processed_urls s \<or> url \<in> queued_urls s \<or> \<not> should_crawl_url url start_url)"

definition mark_queued :: "string \<Rightarrow> crawler \<Rightarrow> crawler" where
  "mark_queued url s = s\<lparr>queued_urls := insert url (queued_urls s)\<rparr>"

definition call_arun :: "string \<Rightarrow> crawler \<Rightarrow> crawler" where
  "call_arun url s = s\<lparr>fetched := fetched s @ [url]\<rparr>"

definition call_sleep :: "crawler \<Rightarrow> crawler" where
  "call_sleep s = s\<lparr>sleeps := sleeps s + 1\<rparr>"

text \<open>The three updates that follow \<open>result.success\<close>.\<close>

definition on_success :: "string \<Rightarrow> crawler \<Rightarrow> crawler" where
  "on_success url s =
     s\<lparr>processed_urls := insert url (processed_urls s),
       crawler_sitemap := add_url (crawler_sitemap s) url,
       progress := progress s + 1\<rparr>"

text \<open>The condition under which a link is put on the queue, and the two loops over the
  links of a page.\<close>

definition wanted_link :: "string \<Rightarrow> string \<Rightarrow> crawler \<Rightarrow> bool" where
  "wanted_link start_url link_url s =
     (link_url \<noteq> [] \<and> get_domain link_url = get_domain start_url
      \<and> link_url \<notin> processed_urls s \<and> link_url \<notin> queued_urls s)"

fun put_links :: "string \<Rightarrow> string list \<Rightarrow> crawler \<Rightarrow> crawler" where
  "put_links start_url [] s = s"
| "put_links start_url (link_url # rest) s =
     put_links start_url rest
       (if wanted_link start_url link_url s
        then s\<lparr>urls_to_process := urls_to_process s @ [link_url]\<rparr> else s)"

definition resolve_href :: "crawl_config \<Rightarrow> string \<Rightarrow> string \<Rightarrow> string" where
  "resolve_href cfg url link_url =
     (if startswith link_url ''/'' then cfg_urljoin cfg url link_url else link_url)"

definition enqueue_links ::
  "crawl_config \<Rightarrow> string \<Rightarrow> string list option \<Rightarrow> string list option \<Rightarrow> crawler \<Rightarrow> crawler" where
  "enqueue_links cfg url md_links html_links s =
     (let s1 = (case md_links of None \<Rightarrow> s | Some ls \<Rightarrow> put_links (cfg_start_url cfg) ls s)
      in case html_links of
           None \<Rightarrow> s1
         | Some hs \<Rightarrow> put_links (cfg_start_url cfg) (map (resolve_href cfg url) hs) s1)"

subsection \<open>One call of process\_url, run to its end\<close>

text \<open>
  \<open>process_url\<close> as one task runs it when no other task takes a step in between and
  the semaphore has a permit. \<open>arun env url k\<close> is what the fetch of \<open>url\<close> comes to
  when \<open>k\<close> fetches of it went before; \<open>store_document env url markdown\<close> is false
  when \<open>process_and_store_document\<close> raises.
\<close>

record fetch_env =
  arun :: "string \<Rightarrow> nat \<Rightarrow> crawl_result"
  store_document :: "string \<Rightarrow> string \<Rightarrow> bool"

function process_url :: "crawl_config \<Rightarrow> fetch_env \<Rightarrow> string \<Rightarrow> int \<Rightarrow> crawler \<Rightarrow> crawler" where
  "process_url cfg env url retry_count s =
     (if skip_url (cfg_start_url cfg) url s then s
      else (let s1 = call_arun url (mark_queued url s)
            in case arun env url (count_list (fetched s) url) of
                 Fetched markdown md_links html_links \<Rightarrow>
                   (let s2 = on_success url s1
                    in if store_document env url markdown
                       then enqueue_links cfg url md_links html_links s2
                       else if retry_count < cfg_max_retries cfg
                       then process_url cfg env url (retry_count + 1) (call_sleep s2)
                       else s2)
               | Failed \<Rightarrow>
                   if retry_count < cfg_max_retries cfg
                   then process_url cfg env url (retry_count + 1) (call_sleep s1)
                   else s1
               | Raised \<Rightarrow>
                   if retry_count < cfg_max_retries cfg
                   then process_url cfg env url (retry_count + 1) (call_sleep s1)
                   else s1))"
  by pat_completeness auto
termination
  by (relation "measure (\<lambda>(cfg, env, url, retry_count, s). nat (cfg_max_retries cfg - retry_count))")
     auto

declare process_url.simps [simp del]

subsection \<open>The workers, interleaved\<close>

text \<open>
  The tasks of \<open>asyncio\<close> take turns only at an \<open>await\<close>. A worker is idle (at
  \<open>urls_to_process.get()\<close>) or inside \<open>process_url url retry_count\<close> at one of its
  suspension points: waiting for the semaphore, waiting for \<open>crawler.arun\<close>, waiting
  for \<open>process_and_store_document\<close> (with the links of the page at hand), or asleep
  before a retry. The last number counts the permits held by the enclosing calls of
  \<open>process_url\<close> on the worker's stack.
\<close>

datatype phase =
    Idle
  | Waiting string int nat
  | Fetching string int nat
  | Storing string int nat "string list option" "string list option"
  | Sleeping string int nat

record scheduler =
  shared :: crawler
  permits :: nat
  workers :: "nat \<Rightarrow> phase"

text \<open>
  The steps between two suspension points, each taken by one worker: taking a URL off
  the queue and running \<open>process_url\<close> up to the semaphore; acquiring the semaphore and
  calling \<open>crawler.arun\<close>; the return of \<open>crawler.arun\<close>; the return of
  \<open>process_and_store_document\<close> (\<open>False\<close> when it raises); the end of the sleep and the
  nested call of \<open>process_url\<close>.
\<close>

datatype event =
    Get nat
  | Acquire nat
  | Fetch_done nat crawl_result
  | Store_done nat bool
  | Wake nat

text \<open>Leaving \<open>process_url\<close>: every \<open>async with\<close> on the stack releases its permit, and
  the worker returns to the queue.\<close>

definition finish :: "nat \<Rightarrow> nat \<Rightarrow> scheduler \<Rightarrow> scheduler" where
  "finish w held st = st\<lparr>permits := permits st + held + 1, workers := (workers st)(w := Idle)\<rparr>"

definition fail_or_retry :: "crawl_config \<Rightarrow> nat \<Rightarrow> string \<Rightarrow> int \<Rightarrow> nat \<Rightarrow> scheduler \<Rightarrow> scheduler" where
  "fail_or_retry cfg w url retry_count held st =
     (if retry_count < cfg_max_retries cfg
      then st\<lparr>shared := call_sleep (shared st),
              workers := (workers st)(w := Sleeping url retry_count held)\<rparr>
      else finish w held st)"

fun step :: "crawl_config \<Rightarrow> event \<Rightarrow> scheduler \<Rightarrow> scheduler" where
  "step cfg (Get w) st =
     (case (workers st w, urls_to_process (shared st)) of
        (Idle, url # rest) \<Rightarrow>
          (let s = (shared st)\<lparr>urls_to_process := rest\<rparr>
           in if w < cfg_max_concurrent cfg
              then (if url \<in> processed_urls s \<or> skip_url (cfg_start_url cfg) url s
                    then st\<lparr>shared := s\<rparr>
                    else st\<lparr>shared := mark_queued url s,
                            workers := (workers st)(w := Waiting url 0 0)\<rparr>)
              else st)
      | _ \<Rightarrow> st)"
| "step cfg (Acquire w) st =
     (case workers st w of
        Waiting url retry_count held \<Rightarrow>
          if 0 < permits st
          then st\<lparr>shared := call_arun url (shared st), permits := permits st - 1,
                  workers := (workers st)(w := Fetching url retry_count held)\<rparr>
          else st
      | _ \<Rightarrow> st)"
| "step cfg (Fetch_done w result) st =
     (case workers st w of
        Fetching url retry_count held \<Rightarrow>
          (case result of
             Fetched markdown md_links html_links \<Rightarrow>
               st\<lparr>shared := on_success url (shared st),
                  workers := (workers st)(w := Storing url retry_count held md_links html_links)\<rparr>
           | Failed \<Rightarrow> fail_or_retry cfg w url retry_count held st
           | Raised \<Rightarrow> fail_or_retry cfg w url retry_count held st)
      | _ \<Rightarrow> st)"
| "step cfg (Store_done w stored) st =
     (case workers st w of
        Storing url retry_count held md_links html_links \<Rightarrow>
          if stored
          then finish w held (st\<lparr>shared := enqueue_links cfg url md_links html_links (shared st)\<rparr>)
          else fail_or_retry cfg w url retry_count held st
      | _ \<Rightarrow> st)"
| "step cfg (Wake w) st =
     (case workers st w of
        Sleeping url retry_count held \<Rightarrow>
          if skip_url (cfg_start_url cfg) url (shared st)
          then finish w held st
          else st\<lparr>shared := mark_queued url (shared st),
                  workers := (workers st)(w := Waiting url (retry_count + 1) (held + 1))\<rparr>
      | _ \<Rightarrow> st)"

fun run :: "crawl_config \<Rightarrow> event list \<Rightarrow> scheduler \<Rightarrow> scheduler" where
  "run cfg [] st = st"
| "run cfg (e # es) st = run cfg es (step cfg e st)"

text \<open>The state in which \<open>crawl_parallel urls\<close> starts its workers.\<close>

definition start_crawl :: "crawl_config \<Rightarrow> sitemap \<Rightarrow> string list \<Rightarrow> scheduler" where
  "start_crawl cfg sm urls =
     \<lparr>shared = \<lparr>processed_urls = {}, queued_urls = {}, crawler_sitemap = sm,
                 urls_to_process = urls, progress = 0, fetched = [], sleeps = 0\<rparr>,
      permits = cfg_max_concurrent cfg,
      workers = (\<lambda>w. Idle)\<rparr>"

text \<open>The URLs whose fetch is in flight, one entry per worker that waits for
  \<open>crawler.arun\<close>.\<close>

definition in_flight :: "crawl_config \<Rightarrow> scheduler \<Rightarrow> string list" where
  "in_flight cfg st =
     concat (map (\<lambda>w. case workers st w of Fetching url retry_count held \<Rightarrow> [url] | _ \<Rightarrow> [])
               [0 ..< cfg_max_concurrent cfg])"

text \<open>
  What holds of every state the workers reach: no URL was handed to \<open>crawler.arun\<close>
  twice; every URL handed to it is in \<open>queued_urls\<close>; a worker waiting for the
  semaphore holds a URL that is in \<open>queued_urls\<close> and was not fetched yet, and no two
  such workers hold the same URL; a worker whose fetch is in flight holds a URL that is
  in the list of fetches, and no two such workers hold the same URL.
\<close>

definition waiting_url :: "phase \<Rightarrow> string option" where
  "waiting_url p = (case p of Waiting url retry_count held \<Rightarrow> Some url | _ \<Rightarrow> None)"

definition fetching_url :: "phase \<Rightarrow> string option" where
  "fetching_url p = (case p of Fetching url retry_count held \<Rightarrow> Some url | _ \<Rightarrow> None)"

definition crawl_inv :: "scheduler \<Rightarrow> bool" where
  "crawl_inv st =
     (distinct (fetched (shared st))
      \<and> set (fetched (shared st)) \<subseteq> queued_urls (shared st)
      \<and> (\<forall>w url. waiting_url (workers st w) = Some url \<longrightarrow>
            url \<in> queued_urls (shared st) \<and> url \<notin> set (fetched (shared st)))
      \<and> (\<forall>w w' url. waiting_url (workers st w) = Some url
            \<and> waiting_url (workers st w') = Some url \<longrightarrow> w = w')
      \<and> (\<forall>w url. fetching_url (workers st w) = Some url \<longrightarrow>
            url \<in> set (fetched (shared st)))
      \<and> (\<forall>w w' url. fetching_url (workers st w) = Some url
            \<and> fetching_url (workers st w') = Some url \<longrightarrow> w = w'))"

section \<open>Facts about the string operations\<close>

lemma rfind_range: "- 1 \<le> rfind s sub \<and> rfind s sub \<le> int (length s)"
proof (cases "filter (\<lambda>i. take (length sub) (drop i s) = sub) (rev [0 ..< Suc (length s)])")
  case Nil
  then show ?thesis by (simp add: rfind_def)
next
  case (Cons i rest)
  then have "i \<in> set (filter (\<lambda>i. take (length sub) (drop i s) = sub) (rev [0 ..< Suc (length s)]))"
    by simp
  then have "i \<le> length s" by (auto simp del: upt_Suc)
  with Cons show ?thesis by (simp add: rfind_def)
qed



lemma rstrip_by_split: "rstrip_by p s @ rev (takeWhile p (rev s)) = s"
proof -
  have "rev (dropWhile p (rev s)) @ rev (takeWhile p (rev s))
      = rev (takeWhile p (rev s) @ dropWhile p (rev s))"
    by (simp only: rev_append)
  also have "\<dots> = s"
    by (simp only: takeWhile_dropWhile_id rev_rev_ident)
  finally show ?thesis by (simp only: rstrip_by_def)
qed

text \<open>\<open>strip\<close> removes white space from the two edges and nothing else.\<close>

lemma strip_split:
  "\<exists>l r. s = l @ strip s @ r \<and> list_all is_space l \<and> list_all is_space r"
proof -
  let ?l = "takeWhile is_space s"
  let ?r = "rev (takeWhile is_space (rev (dropWhile is_space s)))"
  have "strip s @ ?r = dropWhile is_space s"
    using rstrip_by_split[of is_space "dropWhile is_space s"]
    by (simp add: strip_def strip_by_def lstrip_by_def)
  then have "s = ?l @ strip s @ ?r" by simp
  moreover have "list_all is_space ?l"
    by (simp add: list_all_iff) (meson set_takeWhileD)
  moreover have "list_all is_space ?r"
    by (simp add: list_all_iff) (meson set_takeWhileD)
  ultimately show ?thesis by blast
qed


section \<open>Facts about chunk\_text\<close>

declare chunk_loop.simps [simp del]









lemma chunk_text_negative_size: "chunk_text ''abcdef'' (- 2) = [''abcd'', ''bcde'']"
  by code_simp








section \<open>Facts about should\_crawl\_url\<close>

lemma startswith_iff: "startswith s p \<longleftrightarrow> (\<exists>ext. s = p @ ext)"
proof
  assume "startswith s p"
  then have "s = p @ drop (length p) s"
    by (metis append_take_drop_id startswith_def)
  then show "\<exists>ext. s = p @ ext" ..
next
  assume "\<exists>ext. s = p @ ext"
  then show "startswith s p" by (auto simp: startswith_def)
qed

text \<open>
  C3 (as amended). \<open>should_crawl_url v u\<close> holds exactly when the two URLs have the same
  network location and the path of \<open>v\<close>, as \<open>urlparse\<close> returns it, starts with the
  path of \<open>u\<close>, as \<open>urlparse\<close> returns it: a comparison of strings, with no
  treatment of a trailing slash. So a candidate whose path extends the start path is
  accepted, whatever its own last character; and a start path that is the candidate's
  path followed by a slash rejects the candidate.
\<close>

theorem should_crawl_url_prefix:
  "(should_crawl_url v u \<longleftrightarrow>
      get_domain u = get_domain v \<and> (\<exists>ext. path (urlparse v) = path (urlparse u) @ ext))
   \<and> (path (urlparse u) = path (urlparse v) @ ''/'' \<longrightarrow> \<not> should_crawl_url v u)"
proof
  show "should_crawl_url v u \<longleftrightarrow>
      get_domain u = get_domain v \<and> (\<exists>ext. path (urlparse v) = path (urlparse u) @ ext)"
    by (simp add: should_crawl_url_def get_domain_def Let_def startswith_iff)
  show "path (urlparse u) = path (urlparse v) @ ''/'' \<longrightarrow> \<not> should_crawl_url v u"
    by (simp add: should_crawl_url_def Let_def startswith_def)
qed

theorem should_crawl_url_prefix_witness:
  "path (urlparse ''https://ex.com/docs/'') = path (urlparse ''https://ex.com/docs'') @ ''/''
   \<and> \<not> should_crawl_url ''https://ex.com/docs'' ''https://ex.com/docs/''
   \<and> get_domain ''https://ex.com/docs'' = get_domain ''https://ex.com/docs/''
   \<and> should_crawl_url ''https://ex.com/docs/'' ''https://ex.com/docs''"
proof -
  have p: "path (urlparse ''https://ex.com/docs/'') = path (urlparse ''https://ex.com/docs'') @ ''/''"
    by code_simp
  have d: "get_domain ''https://ex.com/docs'' = get_domain ''https://ex.com/docs/''"
    by code_simp
  from p d show ?thesis
    using should_crawl_url_prefix[of "''https://ex.com/docs''" "''https://ex.com/docs/''"]
      should_crawl_url_prefix[of "''https://ex.com/docs/''" "''https://ex.com/docs''"]
    by simp
qed

text \<open>
  C3 as stated fails at its own example: both URLs have the network location
  \<open>ex.com\<close>, the start path is \<open>/docs/\<close>, the candidate path is \<open>/docs\<close>, and the
  candidate is rejected.
\<close>

theorem should_crawl_url_trailing_slash_counterexample:
  "netloc (urlparse ''https://ex.com/docs/'') = ''ex.com''
   \<and> netloc (urlparse ''https://ex.com/docs'') = ''ex.com''
   \<and> path (urlparse ''https://ex.com/docs/'') = ''/docs/''
   \<and> path (urlparse ''https://ex.com/docs'') = ''/docs''
   \<and> should_crawl_url ''https://ex.com/docs'' ''https://ex.com/docs/'' = False"
  by code_simp

section \<open>Facts about sanitize\_filename and save\_chunk\_to\_file\<close>

lemma set_strip_by: "set (strip_by p s) \<subseteq> set s"
proof -
  have "set (rev (dropWhile p (rev (dropWhile p s)))) \<subseteq> set (rev (dropWhile p s))"
    using set_dropWhileD[of _ p "rev (dropWhile p s)"] by (simp only: set_rev) blast
  also have "\<dots> = set (dropWhile p s)" by (rule set_rev)
  also have "\<dots> \<subseteq> set s"
    using set_dropWhileD[of _ p s] by blast
  finally show ?thesis by (simp only: strip_by_def rstrip_by_def lstrip_by_def)
qed

lemma strip_by_head:
  assumes "strip_by p s = c # rest"
  shows "\<not> p c"
proof -
  define d where "d = dropWhile p s"
  from assms have r: "rstrip_by p d = c # rest"
    by (simp add: strip_by_def lstrip_by_def d_def)
  have "rstrip_by p d @ rev (takeWhile p (rev d)) = d" by (rule rstrip_by_split)
  then have "c # (rest @ rev (takeWhile p (rev d))) = d" by (simp only: r append_Cons)
  then have "\<exists>rest'. d = c # rest'"
    by (intro exI[of _ "rest @ rev (takeWhile p (rev d))"]) (rule sym)
  then obtain rest' where "d = c # rest'" ..
  then have "dropWhile p s \<noteq> []" and "hd (dropWhile p s) = c"
    unfolding d_def by simp_all
  with hd_dropWhile[of p s] show ?thesis by blast
qed

lemma strip_by_last:
  assumes "rev (strip_by p s) = c # rest"
  shows "\<not> p c"
proof -
  have "rev (strip_by p s) = dropWhile p (rev (dropWhile p s))"
    by (simp add: strip_by_def rstrip_by_def lstrip_by_def)
  with assms have d: "dropWhile p (rev (dropWhile p s)) = c # rest" by simp
  then have "dropWhile p (rev (dropWhile p s)) \<noteq> []"
    and "hd (dropWhile p (rev (dropWhile p s))) = c" by simp_all
  with hd_dropWhile[of p "rev (dropWhile p s)"] show ?thesis by blast
qed

lemma strip_by_sides:
  "\<exists>left right. s = left @ strip_by p s @ right \<and> list_all p left \<and> list_all p right"
proof -
  let ?l = "takeWhile p s"
  let ?r = "rev (takeWhile p (rev (dropWhile p s)))"
  have "strip_by p s @ ?r = dropWhile p s"
    using rstrip_by_split[of p "dropWhile p s"] by (simp add: strip_by_def lstrip_by_def)
  then have "?l @ strip_by p s @ ?r = s" by simp
  then have "s = ?l @ strip_by p s @ ?r" by (rule sym)
  moreover have "list_all p ?l"
    by (simp add: list_all_iff) (meson set_takeWhileD)
  moreover have "list_all p ?r"
    by (simp add: list_all_iff) (meson set_takeWhileD)
  ultimately show ?thesis by blast
qed

text \<open>
  C9 (as amended). \<open>sanitize_filename\<close> takes the name \<open><netloc>_<path without the
  slashes at its two ends>\<close>, replaces each character outside \<open>[a-zA-Z0-9]\<close> by one
  underscore, one for one (a run of such characters becomes a run of underscores of
  the same length: runs are not collapsed), strips the underscores at the two ends
  (what is cut off on either side is underscores only, and what is left neither starts
  nor ends with one), and keeps the first 200 characters. So the result consists of
  ASCII letters, digits and underscores, does not start with an underscore, and is at
  most 200 characters long.
\<close>

theorem sanitize_filename_safe:
  "(let raw_name = netloc (urlparse url) @ ''_''
                    @ strip_by (\<lambda>c. c = CHR ''/'') (path (urlparse url));
        replaced = map (\<lambda>c. if is_alnum c then c else CHR ''_'') raw_name;
        stripped = strip_by (\<lambda>c. c = CHR ''_'') replaced
    in sanitize_filename url = take 200 stripped
       \<and> (\<exists>left right. replaced = left @ stripped @ right
             \<and> list_all (\<lambda>c. c = CHR ''_'') left \<and> list_all (\<lambda>c. c = CHR ''_'') right)
       \<and> \<not> startswith stripped ''_''
       \<and> \<not> startswith (rev stripped) ''_'')
   \<and> list_all (\<lambda>c. is_alnum c \<or> c = CHR ''_'') (sanitize_filename url)
   \<and> length (sanitize_filename url) \<le> 200
   \<and> \<not> startswith (sanitize_filename url) ''_''"
proof -
  define raw where
    "raw = netloc (urlparse url) @ ''_'' @ strip_by (\<lambda>c. c = CHR ''/'') (path (urlparse url))"
  define replaced where "replaced = map (\<lambda>c. if is_alnum c then c else CHR ''_'') raw"
  define stripped where "stripped = strip_by (\<lambda>c. c = CHR ''_'') replaced"
  have sf: "sanitize_filename url = take 200 stripped"
    by (simp add: sanitize_filename_def sub_non_alnum_def Let_def raw_def replaced_def stripped_def)
  have sides: "\<exists>left right. replaced = left @ stripped @ right
      \<and> list_all (\<lambda>c. c = CHR ''_'') left \<and> list_all (\<lambda>c. c = CHR ''_'') right"
    unfolding stripped_def by (rule strip_by_sides)
  have head: "\<not> startswith stripped ''_''"
  proof
    assume "startswith stripped ''_''"
    then obtain rest where "stripped = CHR ''_'' # rest"
      by (auto simp: startswith_iff)
    from strip_by_head[OF this[unfolded stripped_def]] show False by simp
  qed
  have tail: "\<not> startswith (rev stripped) ''_''"
  proof
    assume "startswith (rev stripped) ''_''"
    then obtain rest where "rev stripped = CHR ''_'' # rest"
      by (auto simp: startswith_iff)
    from strip_by_last[OF this[unfolded stripped_def]] show False by simp
  qed
  have "set (take 200 stripped) \<subseteq> set stripped" by (rule set_take_subset)
  also have "\<dots> \<subseteq> set replaced"
    unfolding stripped_def by (rule set_strip_by)
  finally have "\<forall>c \<in> set (take 200 stripped). is_alnum c \<or> c = CHR ''_''"
    by (auto simp: replaced_def split: if_splits)
  then have alpha: "list_all (\<lambda>c. is_alnum c \<or> c = CHR ''_'') (sanitize_filename url)"
    by (simp add: sf list_all_iff)
  have len: "length (sanitize_filename url) \<le> 200" by (simp add: sf)
  have nolead: "\<not> startswith (sanitize_filename url) ''_''"
  proof
    assume "startswith (sanitize_filename url) ''_''"
    then obtain rest where "take 200 stripped = CHR ''_'' # rest"
      by (auto simp: startswith_iff sf)
    then obtain rest' where "stripped = CHR ''_'' # rest'"
      by (cases stripped) (auto split: if_splits)
    from strip_by_head[OF this[unfolded stripped_def]] show False by simp
  qed
  from sf sides head tail alpha len nolead show ?thesis
    unfolding Let_def raw_def[symmetric] replaced_def[symmetric] stripped_def[symmetric]
    by (intro conjI)
qed

theorem sanitize_filename_safe_witness:
  "sanitize_filename ''https://ex.com/docs/a b--c/'' = ''ex_com_docs_a_b__c''
   \<and> list_all (\<lambda>c. is_alnum c \<or> c = CHR ''_'') (sanitize_filename ''https://ex.com/docs/a b--c/'')
   \<and> length (sanitize_filename ''https://ex.com/docs/a b--c/'') \<le> 200
   \<and> \<not> startswith (sanitize_filename ''https://ex.com/docs/a b--c/'') ''_''"
proof -
  have e: "sanitize_filename ''https://ex.com/docs/a b--c/'' = ''ex_com_docs_a_b__c''"
    by code_simp
  from sanitize_filename_safe[of "''https://ex.com/docs/a b--c/''"]
  have "list_all (\<lambda>c. is_alnum c \<or> c = CHR ''_'') (sanitize_filename ''https://ex.com/docs/a b--c/'')
   \<and> length (sanitize_filename ''https://ex.com/docs/a b--c/'') \<le> 200
   \<and> \<not> startswith (sanitize_filename ''https://ex.com/docs/a b--c/'') ''_''"
    by (rule conjunct2)
  with e show ?thesis by (rule conjI)
qed

text \<open>
  C9 as stated fails where it promises single separators: a run of characters
  outside \<open>[a-zA-Z0-9]\<close> is not collapsed, so the two hyphens of \<open>a--b\<close> become two
  underscores.
\<close>

theorem sanitize_filename_run_counterexample:
  "sanitize_filename ''http://ex.com/a--b'' = ''ex_com_a__b''"
  by code_simp

text \<open>
  C10. \<open>sanitize_filename\<close> is not injective: two URLs that differ in one character
  outside \<open>[a-zA-Z0-9]\<close> get the same name, and so do two URLs that differ only past
  the 200th character of the name. \<open>save_chunk_to_file\<close> stores the record under the
  name made of the sanitized URL and the chunk number and touches no other file. So
  whenever two chunk records have URLs with the same sanitized name and the same chunk
  number, they get the same file name; the first write stores the first record there,
  and after the second write the file holds the second record, the files being as if
  the first had never been written.
\<close>

theorem sanitize_filename_not_injective:
  "(\<exists>u v. u \<noteq> v \<and> sanitize_filename u = sanitize_filename v)
   \<and> sanitize_filename ''http://ex.com/a-b'' = sanitize_filename ''http://ex.com/a_b''
   \<and> sanitize_filename (''http://ex.com/'' @ replicate 200 (CHR ''a'') @ ''x'')
       = sanitize_filename (''http://ex.com/'' @ replicate 200 (CHR ''a'') @ ''y'')
   \<and> chunk_filename c1
       = sanitize_filename (pc_url c1) @ ''_chunk_'' @ str_int (pc_chunk_number c1) @ ''.json''
   \<and> save_chunk_to_file True c1 files (chunk_filename c1) = Some c1
   \<and> (name \<noteq> chunk_filename c1 \<longrightarrow> save_chunk_to_file True c1 files name = files name)
   \<and> (sanitize_filename (pc_url c1) = sanitize_filename (pc_url c2)
        \<and> pc_chunk_number c1 = pc_chunk_number c2 \<longrightarrow>
        chunk_filename c1 = chunk_filename c2
        \<and> save_chunk_to_file True c2 (save_chunk_to_file True c1 files) (chunk_filename c1)
            = Some c2
        \<and> save_chunk_to_file True c2 (save_chunk_to_file True c1 files)
            = save_chunk_to_file True c2 files)"
proof (intro conjI impI)
  show e1: "sanitize_filename ''http://ex.com/a-b'' = sanitize_filename ''http://ex.com/a_b''"
    by code_simp
  have ne: "''http://ex.com/a-b'' \<noteq> ''http://ex.com/a_b''" by simp
  show "\<exists>u v. u \<noteq> v \<and> sanitize_filename u = sanitize_filename v"
    by (rule exI[of _ "''http://ex.com/a-b''"], rule exI[of _ "''http://ex.com/a_b''"])
       (rule conjI[OF ne e1])
  show "sanitize_filename (''http://ex.com/'' @ replicate 200 (CHR ''a'') @ ''x'')
       = sanitize_filename (''http://ex.com/'' @ replicate 200 (CHR ''a'') @ ''y'')"
    by code_simp
  show "chunk_filename c1
       = sanitize_filename (pc_url c1) @ ''_chunk_'' @ str_int (pc_chunk_number c1) @ ''.json''"
    by (simp add: chunk_filename_def)
  show "save_chunk_to_file True c1 files (chunk_filename c1) = Some c1"
    by (simp add: save_chunk_to_file_def)
next
  assume "name \<noteq> chunk_filename c1"
  then show "save_chunk_to_file True c1 files name = files name"
    by (simp add: save_chunk_to_file_def)
next
  assume a: "sanitize_filename (pc_url c1) = sanitize_filename (pc_url c2)
        \<and> pc_chunk_number c1 = pc_chunk_number c2"
  then show n: "chunk_filename c1 = chunk_filename c2"
    by (simp add: chunk_filename_def)
  show "save_chunk_to_file True c2 (save_chunk_to_file True c1 files) (chunk_filename c1) = Some c2"
    by (simp add: save_chunk_to_file_def n)
  show "save_chunk_to_file True c2 (save_chunk_to_file True c1 files)
            = save_chunk_to_file True c2 files"
    by (simp add: save_chunk_to_file_def n)
qed

theorem sanitize_filename_not_injective_witness:
  "sanitize_filename ''http://ex.com/a-b'' = sanitize_filename ''http://ex.com/a_b''
   \<and> chunk_filename \<lparr>pc_url = ''http://ex.com/a-b'', pc_chunk_number = 0, pc_title = JStr ''A'',
         pc_summary = JStr ''first'', pc_content = ''one'',
         pc_metadata = \<lparr>md_source = ''http://ex.com/a-b'', md_chunk_size = 3,
                         md_crawled_at = ''t'', md_url_path = ''/a-b''\<rparr>,
         pc_embedding = JList []\<rparr> = ''ex_com_a_b_chunk_0.json''
   \<and> chunk_filename \<lparr>pc_url = ''http://ex.com/a_b'', pc_chunk_number = 0, pc_title = JStr ''B'',
         pc_summary = JStr ''second'', pc_content = ''two'',
         pc_metadata = \<lparr>md_source = ''http://ex.com/a_b'', md_chunk_size = 3,
                         md_crawled_at = ''t'', md_url_path = ''/a_b''\<rparr>,
         pc_embedding = JList []\<rparr> = ''ex_com_a_b_chunk_0.json''
   \<and> save_chunk_to_file True
         \<lparr>pc_url = ''http://ex.com/a-b'', pc_chunk_number = 0, pc_title = JStr ''A'',
          pc_summary = JStr ''first'', pc_content = ''one'',
          pc_metadata = \<lparr>md_source = ''http://ex.com/a-b'', md_chunk_size = 3,
                          md_crawled_at = ''t'', md_url_path = ''/a-b''\<rparr>,
          pc_embedding = JList []\<rparr> Map.empty ''ex_com_a_b_chunk_0.json''
       = Some \<lparr>pc_url = ''http://ex.com/a-b'', pc_chunk_number = 0, pc_title = JStr ''A'',
          pc_summary = JStr ''first'', pc_content = ''one'',
          pc_metadata = \<lparr>md_source = ''http://ex.com/a-b'', md_chunk_size = 3,
                          md_crawled_at = ''t'', md_url_path = ''/a-b''\<rparr>,
          pc_embedding = JList []\<rparr>
   \<and> save_chunk_to_file True
         \<lparr>pc_url = ''http://ex.com/a_b'', pc_chunk_number = 0, pc_title = JStr ''B'',
          pc_summary = JStr ''second'', pc_content = ''two'',
          pc_metadata = \<lparr>md_source = ''http://ex.com/a_b'', md_chunk_size = 3,
                          md_crawled_at = ''t'', md_url_path = ''/a_b''\<rparr>,
          pc_embedding = JList []\<rparr>
         (save_chunk_to_file True
            \<lparr>pc_url = ''http://ex.com/a-b'', pc_chunk_number = 0, pc_title = JStr ''A'',
             pc_summary = JStr ''first'', pc_content = ''one'',
             pc_metadata = \<lparr>md_source = ''http://ex.com/a-b'', md_chunk_size = 3,
                             md_crawled_at = ''t'', md_url_path = ''/a-b''\<rparr>,
             pc_embedding = JList []\<rparr> Map.empty)
       = [''ex_com_a_b_chunk_0.json'' \<mapsto>
           \<lparr>pc_url = ''http://ex.com/a_b'', pc_chunk_number = 0, pc_title = JStr ''B'',
            pc_summary = JStr ''second'', pc_content = ''two'',
            pc_metadata = \<lparr>md_source = ''http://ex.com/a_b'', md_chunk_size = 3,
                            md_crawled_at = ''t'', md_url_path = ''/a_b''\<rparr>,
            pc_embedding = JList []\<rparr>]"
proof -
  let ?c1 = "\<lparr>pc_url = ''http://ex.com/a-b'', pc_chunk_number = 0, pc_title = JStr ''A'',
             pc_summary = JStr ''first'', pc_content = ''one'',
             pc_metadata = \<lparr>md_source = ''http://ex.com/a-b'', md_chunk_size = 3,
                             md_crawled_at = ''t'', md_url_path = ''/a-b''\<rparr>,
             pc_embedding = JList []\<rparr>"
  let ?c2 = "\<lparr>pc_url = ''http://ex.com/a_b'', pc_chunk_number = 0, pc_title = JStr ''B'',
          pc_summary = JStr ''second'', pc_content = ''two'',
          pc_metadata = \<lparr>md_source = ''http://ex.com/a_b'', md_chunk_size = 3,
                          md_crawled_at = ''t'', md_url_path = ''/a_b''\<rparr>,
          pc_embedding = JList []\<rparr>"
  have f1: "chunk_filename ?c1 = ''ex_com_a_b_chunk_0.json''" by code_simp
  have f2: "chunk_filename ?c2 = ''ex_com_a_b_chunk_0.json''" by code_simp
  have s: "sanitize_filename ''http://ex.com/a-b'' = sanitize_filename ''http://ex.com/a_b''"
    by code_simp
  note t = sanitize_filename_not_injective[where ?c1.0 = ?c1 and ?c2.0 = ?c2 and files = Map.empty
      and name = "''other''"]
  from t have first: "save_chunk_to_file True ?c1 Map.empty (chunk_filename ?c1) = Some ?c1"
    by (elim conjE)
  from t s have both: "save_chunk_to_file True ?c2 (save_chunk_to_file True ?c1 Map.empty)
      = save_chunk_to_file True ?c2 Map.empty"
    by simp
  have "save_chunk_to_file True ?c2 Map.empty = [''ex_com_a_b_chunk_0.json'' \<mapsto> ?c2]"
    unfolding save_chunk_to_file_def by (simp only: f2 if_True)
  with both have b: "save_chunk_to_file True ?c2 (save_chunk_to_file True ?c1 Map.empty)
      = [''ex_com_a_b_chunk_0.json'' \<mapsto> ?c2]" by simp
  from first have a: "save_chunk_to_file True ?c1 Map.empty ''ex_com_a_b_chunk_0.json'' = Some ?c1"
    by (simp only: f1)
  from s f1 f2 a b show ?thesis by (intro conjI)
qed

section \<open>Facts about the sitemap\<close>

text \<open>
  C7 (as amended). \<open>add_url\<close> inserts the URL exactly when its network location
  equals the sitemap's \<open>domain\<close>; the path is not looked at. It changes nothing else,
  adding the same URL again changes nothing, and it keeps the invariant that every
  member's network location is the sitemap's domain.
\<close>

theorem add_url_domain_only:
  "sm_urls (add_url s url) = (if get_domain url = sm_domain s then insert url (sm_urls s) else sm_urls s)
   \<and> sm_domain (add_url s url) = sm_domain s
   \<and> sm_start_url (add_url s url) = sm_start_url s
   \<and> add_url (add_url s url) url = add_url s url
   \<and> ((\<forall>u \<in> sm_urls s. get_domain u = sm_domain s) \<longrightarrow>
        (\<forall>u \<in> sm_urls (add_url s url). get_domain u = sm_domain (add_url s url)))"
  by (simp add: add_url_def)

theorem add_url_domain_only_witness:
  "get_domain ''https://ex.com/docs'' = ''ex.com''
   \<and> get_domain ''https://ex.com/blog'' = ''ex.com''
   \<and> sm_urls (add_url \<lparr>sm_domain = ''ex.com'', sm_start_url = ''https://ex.com/docs'',
                         sm_urls = {''https://ex.com/docs''}\<rparr> ''https://ex.com/blog'')
       = {''https://ex.com/blog'', ''https://ex.com/docs''}
   \<and> get_domain ''https://ex.com/blog''
       = sm_domain (add_url \<lparr>sm_domain = ''ex.com'', sm_start_url = ''https://ex.com/docs'',
                         sm_urls = {''https://ex.com/docs''}\<rparr> ''https://ex.com/blog'')"
proof -
  let ?s0 = "\<lparr>sm_domain = ''ex.com'', sm_start_url = ''https://ex.com/docs'',
              sm_urls = {''https://ex.com/docs''}\<rparr>"
  have d1: "get_domain ''https://ex.com/docs'' = ''ex.com''" by code_simp
  have d2: "get_domain ''https://ex.com/blog'' = ''ex.com''" by code_simp
  from add_url_domain_only[of ?s0 "''https://ex.com/blog''"]
  have u: "sm_urls (add_url ?s0 ''https://ex.com/blog'')
      = (if get_domain ''https://ex.com/blog'' = sm_domain ?s0
         then insert ''https://ex.com/blog'' (sm_urls ?s0) else sm_urls ?s0)"
    and d: "sm_domain (add_url ?s0 ''https://ex.com/blog'') = sm_domain ?s0"
    by (rule conjunct1, rule conjunct2[THEN conjunct1])
  have "sm_urls (add_url ?s0 ''https://ex.com/blog'') = {''https://ex.com/blog'', ''https://ex.com/docs''}"
    unfolding u by (simp add: d2)
  moreover have "get_domain ''https://ex.com/blog'' = sm_domain (add_url ?s0 ''https://ex.com/blog'')"
    unfolding d by (simp add: d2)
  ultimately show ?thesis using d1 d2 by blast
qed

text \<open>
  C7 as stated fails on the path: with the scope rooted at \<open>https://ex.com/docs\<close>
  the URL \<open>https://ex.com/blog\<close> is inserted, and it does not satisfy
  \<open>should_crawl_url\<close> against that root.
\<close>

theorem add_url_scope_counterexample:
  "get_domain ''https://ex.com/blog'' = ''ex.com''
   \<and> ''https://ex.com/blog'' \<in> sm_urls (add_url \<lparr>sm_domain = ''ex.com'',
          sm_start_url = ''https://ex.com/docs'', sm_urls = {}\<rparr> ''https://ex.com/blog'')
   \<and> should_crawl_url ''https://ex.com/blog'' ''https://ex.com/docs'' = False"
  by code_simp





section \<open>Facts about the crawler\<close>

lemma mark_queued_simps:
  "queued_urls (mark_queued url s) = insert url (queued_urls s)"
  "processed_urls (mark_queued url s) = processed_urls s"
  "fetched (mark_queued url s) = fetched s"
  by (simp_all add: mark_queued_def)

lemma call_arun_simps:
  "queued_urls (call_arun url s) = queued_urls s"
  "processed_urls (call_arun url s) = processed_urls s"
  "fetched (call_arun url s) = fetched s @ [url]"
  by (simp_all add: call_arun_def)

lemma call_sleep_simps:
  "queued_urls (call_sleep s) = queued_urls s"
  "processed_urls (call_sleep s) = processed_urls s"
  "fetched (call_sleep s) = fetched s"
  by (simp_all add: call_sleep_def)

lemma on_success_simps:
  "queued_urls (on_success url s) = queued_urls s"
  "processed_urls (on_success url s) = insert url (processed_urls s)"
  "fetched (on_success url s) = fetched s"
  by (simp_all add: on_success_def)

lemma put_links_simps:
  "queued_urls (put_links start_url ls s) = queued_urls s"
  "processed_urls (put_links start_url ls s) = processed_urls s"
  "fetched (put_links start_url ls s) = fetched s"
  by (induction ls arbitrary: s; simp)+

lemma enqueue_links_simps:
  "queued_urls (enqueue_links cfg url md_links html_links s) = queued_urls s"
  "processed_urls (enqueue_links cfg url md_links html_links s) = processed_urls s"
  "fetched (enqueue_links cfg url md_links html_links s) = fetched s"
  by (simp_all add: enqueue_links_def put_links_simps split: option.splits)

lemmas shared_simps = mark_queued_simps call_arun_simps call_sleep_simps on_success_simps
  enqueue_links_simps

lemma crawl_inv_quiet:
  assumes "crawl_inv st"
    and "fetched (shared st') = fetched (shared st)"
    and "queued_urls (shared st) \<subseteq> queued_urls (shared st')"
    and "workers st' = (workers st)(w := p)"
    and "waiting_url p = None"
    and "fetching_url p = None \<or> fetching_url p = fetching_url (workers st w)"
  shows "crawl_inv st'"
proof -
  have w: "waiting_url (workers st' v) = Some url \<Longrightarrow> v \<noteq> w \<and> waiting_url (workers st v) = Some url" for v url
    using assms(4,5) by (cases "v = w") auto
  have f: "fetching_url (workers st' v) = Some url \<Longrightarrow>
      fetching_url (workers st (if v = w then w else v)) = Some url" for v url
    using assms(4,6) by (cases "v = w") auto
  have f2: "fetching_url (workers st' v) = Some url \<Longrightarrow>
      fetching_url (workers st v) = Some url" for v url
    using f[of v url] by (cases "v = w") auto
  from assms(1) have i: "distinct (fetched (shared st))"
      "set (fetched (shared st)) \<subseteq> queued_urls (shared st)"
      "\<And>v url. waiting_url (workers st v) = Some url \<Longrightarrow>
            url \<in> queued_urls (shared st) \<and> url \<notin> set (fetched (shared st))"
      "\<And>v v' url. waiting_url (workers st v) = Some url \<Longrightarrow>
            waiting_url (workers st v') = Some url \<Longrightarrow> v = v'"
      "\<And>v url. fetching_url (workers st v) = Some url \<Longrightarrow> url \<in> set (fetched (shared st))"
      "\<And>v v' url. fetching_url (workers st v) = Some url \<Longrightarrow>
            fetching_url (workers st v') = Some url \<Longrightarrow> v = v'"
    unfolding crawl_inv_def by blast+
  show ?thesis
    unfolding crawl_inv_def assms(2)
  proof (intro conjI allI impI)
    show "distinct (fetched (shared st))" by (rule i(1))
    show "set (fetched (shared st)) \<subseteq> queued_urls (shared st')"
      using i(2) assms(3) by blast
  next
    fix v url assume "waiting_url (workers st' v) = Some url"
    then have "waiting_url (workers st v) = Some url" using w by blast
    from i(3)[OF this] assms(3) show "url \<in> queued_urls (shared st')"
      and "url \<notin> set (fetched (shared st))" by blast+
  next
    fix v v' url
    assume "waiting_url (workers st' v) = Some url \<and> waiting_url (workers st' v') = Some url"
    then show "v = v'" using w i(4) by blast
  next
    fix v url assume "fetching_url (workers st' v) = Some url"
    then show "url \<in> set (fetched (shared st))" using f2 i(5) by blast
  next
    fix v v' url
    assume "fetching_url (workers st' v) = Some url \<and> fetching_url (workers st' v') = Some url"
    then show "v = v'" using f2 i(6) by blast
  qed
qed

lemma crawl_inv_admit:
  assumes "crawl_inv st"
    and "fetched (shared st') = fetched (shared st)"
    and "queued_urls (shared st') = insert url (queued_urls (shared st))"
    and "workers st' = (workers st)(w := Waiting url rc held)"
    and "url \<notin> queued_urls (shared st)"
  shows "crawl_inv st'"
proof -
  have w: "waiting_url (workers st' v) = Some u \<Longrightarrow>
      (v = w \<and> u = url) \<or> (v \<noteq> w \<and> waiting_url (workers st v) = Some u)" for v u
    using assms(4) by (cases "v = w") (auto simp: waiting_url_def)
  have f: "fetching_url (workers st' v) = Some u \<Longrightarrow>
      v \<noteq> w \<and> fetching_url (workers st v) = Some u" for v u
    using assms(4) by (cases "v = w") (auto simp: fetching_url_def)
  from assms(1) have i: "distinct (fetched (shared st))"
      "set (fetched (shared st)) \<subseteq> queued_urls (shared st)"
      "\<And>v u. waiting_url (workers st v) = Some u \<Longrightarrow>
            u \<in> queued_urls (shared st) \<and> u \<notin> set (fetched (shared st))"
      "\<And>v v' u. waiting_url (workers st v) = Some u \<Longrightarrow>
            waiting_url (workers st v') = Some u \<Longrightarrow> v = v'"
      "\<And>v u. fetching_url (workers st v) = Some u \<Longrightarrow> u \<in> set (fetched (shared st))"
      "\<And>v v' u. fetching_url (workers st v) = Some u \<Longrightarrow>
            fetching_url (workers st v') = Some u \<Longrightarrow> v = v'"
    unfolding crawl_inv_def by blast+
  from i(2) assms(5) have fresh: "url \<notin> set (fetched (shared st))" by blast
  show ?thesis
    unfolding crawl_inv_def assms(2,3)
  proof (intro conjI allI impI)
    show "distinct (fetched (shared st))" by (rule i(1))
    show "set (fetched (shared st)) \<subseteq> insert url (queued_urls (shared st))"
      using i(2) by blast
  next
    fix v u assume a: "waiting_url (workers st' v) = Some u"
    from w[OF a] i(3)[of v u] fresh
    show "u \<in> insert url (queued_urls (shared st))" and "u \<notin> set (fetched (shared st))"
      by blast+
  next
    fix v v' u
    assume a: "waiting_url (workers st' v) = Some u \<and> waiting_url (workers st' v') = Some u"
    from w[of v u] w[of v' u] a i(3)[of v u] i(3)[of v' u] i(4)[of v u v'] assms(5)
    show "v = v'" by blast
  next
    fix v u assume "fetching_url (workers st' v) = Some u"
    then show "u \<in> set (fetched (shared st))" using f i(5) by blast
  next
    fix v v' u
    assume "fetching_url (workers st' v) = Some u \<and> fetching_url (workers st' v') = Some u"
    then show "v = v'" using f i(6) by blast
  qed
qed

lemma crawl_inv_acquire:
  assumes "crawl_inv st"
    and "fetched (shared st') = fetched (shared st) @ [url]"
    and "queued_urls (shared st') = queued_urls (shared st)"
    and "workers st' = (workers st)(w := Fetching url rc held)"
    and "workers st w = Waiting url rc' held'"
  shows "crawl_inv st'"
proof -
  have ww: "waiting_url (workers st w) = Some url"
    using assms(5) by (simp add: waiting_url_def)
  have w: "waiting_url (workers st' v) = Some u \<Longrightarrow>
      v \<noteq> w \<and> waiting_url (workers st v) = Some u" for v u
    using assms(4) by (cases "v = w") (auto simp: waiting_url_def)
  have f: "fetching_url (workers st' v) = Some u \<Longrightarrow>
      (v = w \<and> u = url) \<or> (v \<noteq> w \<and> fetching_url (workers st v) = Some u)" for v u
    using assms(4) by (cases "v = w") (auto simp: fetching_url_def)
  from assms(1) have i: "distinct (fetched (shared st))"
      "set (fetched (shared st)) \<subseteq> queued_urls (shared st)"
      "\<And>v u. waiting_url (workers st v) = Some u \<Longrightarrow>
            u \<in> queued_urls (shared st) \<and> u \<notin> set (fetched (shared st))"
      "\<And>v v' u. waiting_url (workers st v) = Some u \<Longrightarrow>
            waiting_url (workers st v') = Some u \<Longrightarrow> v = v'"
      "\<And>v u. fetching_url (workers st v) = Some u \<Longrightarrow> u \<in> set (fetched (shared st))"
      "\<And>v v' u. fetching_url (workers st v) = Some u \<Longrightarrow>
            fetching_url (workers st v') = Some u \<Longrightarrow> v = v'"
    unfolding crawl_inv_def by blast+
  from i(3)[OF ww] have fresh: "url \<in> queued_urls (shared st)" "url \<notin> set (fetched (shared st))"
    by blast+
  show ?thesis
    unfolding crawl_inv_def assms(2,3)
  proof (intro conjI allI impI)
    show "distinct (fetched (shared st) @ [url])" using i(1) fresh(2) by simp
    show "set (fetched (shared st) @ [url]) \<subseteq> queued_urls (shared st)"
      using i(2) fresh(1) by simp
  next
    fix v u assume a: "waiting_url (workers st' v) = Some u"
    from w[OF a] have nv: "v \<noteq> w" and wv: "waiting_url (workers st v) = Some u" by blast+
    from i(3)[OF wv] show "u \<in> queued_urls (shared st)" by blast
    from i(4)[OF wv, of w] ww nv have "u \<noteq> url" by blast
    with i(3)[OF wv] show "u \<notin> set (fetched (shared st) @ [url])" by simp
  next
    fix v v' u
    assume "waiting_url (workers st' v) = Some u \<and> waiting_url (workers st' v') = Some u"
    then show "v = v'" using w i(4) by blast
  next
    fix v u assume "fetching_url (workers st' v) = Some u"
    from f[OF this] i(5)[of v u] show "u \<in> set (fetched (shared st) @ [url])" by auto
  next
    fix v v' u
    assume a: "fetching_url (workers st' v) = Some u \<and> fetching_url (workers st' v') = Some u"
    from f[of v u] f[of v' u] a i(5)[of v u] i(5)[of v' u] i(6)[of v u v'] fresh(2)
    show "v = v'" by blast
  qed
qed

lemma crawl_inv_shared:
  assumes "crawl_inv st"
    and "fetched (shared st') = fetched (shared st)"
    and "queued_urls (shared st) \<subseteq> queued_urls (shared st')"
    and "workers st' = workers st"
  shows "crawl_inv st'"
  using assms unfolding crawl_inv_def by (simp only:) blast

lemma phase_url_simps:
  "waiting_url Idle = None" "fetching_url Idle = None"
  "waiting_url (Waiting url rc held) = Some url" "fetching_url (Waiting url rc held) = None"
  "waiting_url (Fetching url rc held) = None" "fetching_url (Fetching url rc held) = Some url"
  "waiting_url (Storing url rc held ml hl) = None" "fetching_url (Storing url rc held ml hl) = None"
  "waiting_url (Sleeping url rc held) = None" "fetching_url (Sleeping url rc held) = None"
  by (simp_all add: waiting_url_def fetching_url_def)

lemma crawl_inv_finish:
  assumes "crawl_inv st"
  shows "crawl_inv (finish w held st)"
  by (rule crawl_inv_quiet[OF assms, where w = w and p = Idle])
     (simp_all add: finish_def phase_url_simps)

lemma crawl_inv_fail_or_retry:
  assumes "crawl_inv st"
  shows "crawl_inv (fail_or_retry cfg w url rc held st)"
proof (cases "rc < cfg_max_retries cfg")
  case True
  show ?thesis
    by (rule crawl_inv_quiet[OF assms, where w = w and p = "Sleeping url rc held"])
       (simp_all add: fail_or_retry_def True phase_url_simps shared_simps)
next
  case False
  then show ?thesis by (simp add: fail_or_retry_def crawl_inv_finish[OF assms])
qed

lemma crawl_inv_step:
  assumes inv: "crawl_inv st"
  shows "crawl_inv (step cfg e st)"
proof (cases e)
  case (Get w)
  show ?thesis
  proof (cases "workers st w")
    case Idle
    show ?thesis
    proof (cases "urls_to_process (shared st)")
      case Nil
      with Idle Get inv show ?thesis by simp
    next
      case (Cons url rest)
      define s where "s = (shared st)\<lparr>urls_to_process := rest\<rparr>"
      have s: "fetched s = fetched (shared st)" "queued_urls s = queued_urls (shared st)"
        by (simp_all add: s_def)
      consider (out) "\<not> w < cfg_max_concurrent cfg"
        | (skip) "w < cfg_max_concurrent cfg"
                 "url \<in> processed_urls s \<or> skip_url (cfg_start_url cfg) url s"
        | (admit) "w < cfg_max_concurrent cfg"
                 "\<not> (url \<in> processed_urls s \<or> skip_url (cfg_start_url cfg) url s)"
        by blast
      then show ?thesis
      proof cases
        case out
        with Idle Cons Get inv show ?thesis by (simp add: Let_def)
      next
        case skip
        then have "step cfg e st = st\<lparr>shared := s\<rparr>"
          using Idle Cons Get by (simp add: Let_def s_def)
        moreover have "crawl_inv (st\<lparr>shared := s\<rparr>)"
          by (rule crawl_inv_shared[OF inv]) (simp_all add: s)
        ultimately show ?thesis by simp
      next
        case admit
        then have e: "step cfg e st =
            st\<lparr>shared := mark_queued url s, workers := (workers st)(w := Waiting url 0 0)\<rparr>"
          using Idle Cons Get by (simp add: Let_def s_def)
        from admit(2) have "url \<notin> queued_urls (shared st)"
          by (simp add: skip_url_def s)
        then have "crawl_inv (st\<lparr>shared := mark_queued url s,
            workers := (workers st)(w := Waiting url 0 0)\<rparr>)"
          by (intro crawl_inv_admit[OF inv, where url = url and w = w and rc = 0 and held = 0])
             (simp_all add: shared_simps s)
        with e show ?thesis by simp
      qed
    qed
  qed (use Get inv in simp_all)
next
  case (Acquire w)
  show ?thesis
  proof (cases "workers st w")
    case (Waiting url rc held)
    show ?thesis
    proof (cases "0 < permits st")
      case True
      have "crawl_inv (st\<lparr>shared := call_arun url (shared st), permits := permits st - 1,
                  workers := (workers st)(w := Fetching url rc held)\<rparr>)"
        by (rule crawl_inv_acquire[OF inv, where url = url and w = w and rc = rc and held = held
              and rc' = rc and held' = held])
           (simp_all add: shared_simps Waiting)
      with True Waiting Acquire show ?thesis by simp
    next
      case False
      with Waiting Acquire inv show ?thesis by simp
    qed
  qed (use Acquire inv in simp_all)
next
  case (Fetch_done w result)
  show ?thesis
  proof (cases "workers st w")
    case (Fetching url rc held)
    show ?thesis
    proof (cases result)
      case (Fetched markdown md_links html_links)
      have "crawl_inv (st\<lparr>shared := on_success url (shared st),
                  workers := (workers st)(w := Storing url rc held md_links html_links)\<rparr>)"
        by (rule crawl_inv_quiet[OF inv, where w = w and p = "Storing url rc held md_links html_links"])
           (simp_all add: shared_simps phase_url_simps)
      with Fetched Fetching Fetch_done show ?thesis by simp
    next
      case Failed
      with Fetching Fetch_done crawl_inv_fail_or_retry[OF inv] show ?thesis by simp
    next
      case Raised
      with Fetching Fetch_done crawl_inv_fail_or_retry[OF inv] show ?thesis by simp
    qed
  qed (use Fetch_done inv in simp_all)
next
  case (Store_done w stored)
  show ?thesis
  proof (cases "workers st w")
    case (Storing url rc held md_links html_links)
    show ?thesis
    proof (cases stored)
      case True
      have "crawl_inv (st\<lparr>shared := enqueue_links cfg url md_links html_links (shared st)\<rparr>)"
        by (rule crawl_inv_shared[OF inv]) (simp_all add: shared_simps)
      from crawl_inv_finish[OF this] True Storing Store_done show ?thesis by simp
    next
      case False
      with Storing Store_done crawl_inv_fail_or_retry[OF inv] show ?thesis by simp
    qed
  qed (use Store_done inv in simp_all)
next
  case (Wake w)
  show ?thesis
  proof (cases "workers st w")
    case (Sleeping url rc held)
    show ?thesis
    proof (cases "skip_url (cfg_start_url cfg) url (shared st)")
      case True
      with Sleeping Wake crawl_inv_finish[OF inv] show ?thesis by simp
    next
      case False
      then have "url \<notin> queued_urls (shared st)" by (simp add: skip_url_def)
      then have "crawl_inv (st\<lparr>shared := mark_queued url (shared st),
                  workers := (workers st)(w := Waiting url (rc + 1) (held + 1))\<rparr>)"
        by (intro crawl_inv_admit[OF inv, where url = url and w = w and rc = "rc + 1"
              and held = "held + 1"])
           (simp_all add: shared_simps)
      with False Sleeping Wake show ?thesis by simp
    qed
  qed (use Wake inv in simp_all)
qed

lemma crawl_inv_run:
  "crawl_inv st \<Longrightarrow> crawl_inv (run cfg evs st)"
  by (induction evs arbitrary: st) (simp_all add: crawl_inv_step)

lemma crawl_inv_start: "crawl_inv (start_crawl cfg sm urls)"
  by (simp add: crawl_inv_def start_crawl_def phase_url_simps)

lemma in_flight_fetching:
  "in_flight cfg st =
     concat (map (\<lambda>w. case fetching_url (workers st w) of Some url \<Rightarrow> [url] | None \<Rightarrow> [])
               [0 ..< cfg_max_concurrent cfg])"
  unfolding in_flight_def
  by (rule arg_cong[where f = concat], rule map_cong[OF refl])
     (simp add: fetching_url_def split: phase.splits)

lemma fetching_list:
  assumes "\<And>w w' url. fetching_url (ws w) = Some url \<Longrightarrow> fetching_url (ws w') = Some url \<Longrightarrow> w = w'"
  shows "distinct (concat (map (\<lambda>w. case fetching_url (ws w) of Some url \<Rightarrow> [url] | None \<Rightarrow> []) [0 ..< n]))
       \<and> set (concat (map (\<lambda>w. case fetching_url (ws w) of Some url \<Rightarrow> [url] | None \<Rightarrow> []) [0 ..< n]))
           = {url. \<exists>w < n. fetching_url (ws w) = Some url}"
proof (induction n)
  case 0
  show ?case by simp
next
  case (Suc n)
  let ?g = "\<lambda>w. case fetching_url (ws w) of Some url \<Rightarrow> [url] | None \<Rightarrow> []"
  from Suc have d: "distinct (concat (map ?g [0 ..< n]))"
    and s: "set (concat (map ?g [0 ..< n])) = {url. \<exists>w < n. fetching_url (ws w) = Some url}"
    by blast+
  show ?case
  proof (cases "fetching_url (ws n)")
    case None
    then have "concat (map ?g [0 ..< Suc n]) = concat (map ?g [0 ..< n])" by simp
    moreover have "{url. \<exists>w < Suc n. fetching_url (ws w) = Some url}
        = {url. \<exists>w < n. fetching_url (ws w) = Some url}"
      using None by (auto simp: less_Suc_eq)
    ultimately show ?thesis using d s by simp
  next
    case (Some u)
    then have c: "concat (map ?g [0 ..< Suc n]) = concat (map ?g [0 ..< n]) @ [u]" by simp
    have nin: "u \<notin> set (concat (map ?g [0 ..< n]))"
    proof
      assume "u \<in> set (concat (map ?g [0 ..< n]))"
      with s obtain w where "w < n" "fetching_url (ws w) = Some u" by blast
      with assms[of w u n] Some show False by simp
    qed
    have seteq: "{url. \<exists>w < Suc n. fetching_url (ws w) = Some url}
        = insert u {url. \<exists>w < n. fetching_url (ws w) = Some url}"
      using Some by (auto simp: less_Suc_eq)
    have "distinct (concat (map ?g [0 ..< n]) @ [u])"
      using d nin by simp
    moreover have "set (concat (map ?g [0 ..< n]) @ [u])
        = insert u {url. \<exists>w < n. fetching_url (ws w) = Some url}"
      by (simp only: set_append s) simp
    ultimately show ?thesis unfolding c seteq by (rule conjI)
  qed
qed

lemma in_flight_inv:
  assumes "crawl_inv st"
  shows "distinct (in_flight cfg st)" and "set (in_flight cfg st) \<subseteq> set (fetched (shared st))"
proof -
  from assms have u: "\<And>w w' url. fetching_url (workers st w) = Some url \<Longrightarrow>
      fetching_url (workers st w') = Some url \<Longrightarrow> w = w'"
    and f: "\<And>w url. fetching_url (workers st w) = Some url \<Longrightarrow> url \<in> set (fetched (shared st))"
    unfolding crawl_inv_def by blast+
  from fetching_list[of "workers st" "cfg_max_concurrent cfg", OF u]
  show "distinct (in_flight cfg st)" by (simp add: in_flight_fetching)
  from fetching_list[of "workers st" "cfg_max_concurrent cfg", OF u] f
  show "set (in_flight cfg st) \<subseteq> set (fetched (shared st))"
    by (auto simp: in_flight_fetching)
qed

lemma process_url_skip:
  assumes "skip_url (cfg_start_url cfg) url s"
  shows "process_url cfg env url retry_count s = s"
  using assms by (subst process_url.simps) simp

lemma fetched_step:
  assumes "crawl_inv st"
  shows "fetched (shared (step cfg e st)) = fetched (shared st)
       \<or> (\<exists>url. fetched (shared (step cfg e st)) = fetched (shared st) @ [url]
              \<and> url \<in> queued_urls (shared st) \<and> url \<notin> set (fetched (shared st)))"
proof (cases e)
  case (Get w)
  then show ?thesis
    by (simp add: shared_simps Let_def split: phase.splits list.splits)
next
  case (Acquire w)
  show ?thesis
  proof (cases "workers st w")
    case (Waiting url rc held)
    then have "waiting_url (workers st w) = Some url" by (simp add: waiting_url_def)
    with assms have "url \<in> queued_urls (shared st) \<and> url \<notin> set (fetched (shared st))"
      unfolding crawl_inv_def by blast
    with Waiting Acquire show ?thesis by (simp add: shared_simps)
  qed (use Acquire in simp_all)
next
  case (Fetch_done w result)
  then show ?thesis
    by (simp add: shared_simps finish_def fail_or_retry_def
             split: phase.splits crawl_result.splits)
next
  case (Store_done w stored)
  then show ?thesis
    by (simp add: shared_simps finish_def fail_or_retry_def split: phase.splits)
next
  case (Wake w)
  then show ?thesis
    by (simp add: shared_simps finish_def split: phase.splits)
qed

lemma process_url_fetched:
  assumes ns: "\<not> skip_url (cfg_start_url cfg) url s"
  shows "fetched (process_url cfg env url retry_count s) = fetched s @ [url]
       \<and> queued_urls (process_url cfg env url retry_count s) = insert url (queued_urls s)"
proof -
  define s1 where "s1 = call_arun url (mark_queued url s)"
  define s2 where "s2 = on_success url s1"
  have f: "fetched s1 = fetched s @ [url]" "queued_urls s1 = insert url (queued_urls s)"
    "fetched s2 = fetched s @ [url]" "queued_urls s2 = insert url (queued_urls s)"
    by (simp_all add: s1_def s2_def shared_simps)
  have "skip_url (cfg_start_url cfg) url (call_sleep s1)"
    by (simp add: skip_url_def f shared_simps)
  then have r1: "process_url cfg env url (retry_count + 1) (call_sleep s1) = call_sleep s1"
    by (rule process_url_skip)
  have "skip_url (cfg_start_url cfg) url (call_sleep s2)"
    by (simp add: skip_url_def f shared_simps)
  then have r2: "process_url cfg env url (retry_count + 1) (call_sleep s2) = call_sleep s2"
    by (rule process_url_skip)
  show ?thesis
  proof (cases "arun env url (count_list (fetched s) url)")
    case (Fetched markdown md_links html_links)
    with ns have "process_url cfg env url retry_count s =
        (if store_document env url markdown then enqueue_links cfg url md_links html_links s2
         else if retry_count < cfg_max_retries cfg then call_sleep s2 else s2)"
      by (subst process_url.simps) (simp add: Let_def s1_def[symmetric] s2_def[symmetric] r2)
    then show ?thesis by (simp add: f shared_simps)
  next
    case Failed
    with ns have "process_url cfg env url retry_count s =
        (if retry_count < cfg_max_retries cfg then call_sleep s1 else s1)"
      by (subst process_url.simps) (simp add: Let_def s1_def[symmetric] r1)
    then show ?thesis by (simp add: f shared_simps)
  next
    case Raised
    with ns have "process_url cfg env url retry_count s =
        (if retry_count < cfg_max_retries cfg then call_sleep s1 else s1)"
      by (subst process_url.simps) (simp add: Let_def s1_def[symmetric] r1)
    then show ?thesis by (simp add: f shared_simps)
  qed
qed

lemma step_acquire:
  assumes "workers st w = Waiting u rc held" and "0 < permits st"
  shows "fetched (shared (step cfg (Acquire w) st)) = fetched (shared st) @ [u]
       \<and> workers (step cfg (Acquire w) st) w = Fetching u rc held"
  using assms by (simp add: shared_simps)

lemma step_get:
  assumes "workers st w = Idle" and "w < cfg_max_concurrent cfg"
    and "urls_to_process (shared st) = u # rest"
  shows "(if skip_url (cfg_start_url cfg) u (shared st)
          then workers (step cfg (Get w) st) w = Idle
               \<and> queued_urls (shared (step cfg (Get w) st)) = queued_urls (shared st)
          else workers (step cfg (Get w) st) w = Waiting u 0 0
               \<and> queued_urls (shared (step cfg (Get w) st)) = insert u (queued_urls (shared st)))
       \<and> fetched (shared (step cfg (Get w) st)) = fetched (shared st)"
  using assms by (simp add: shared_simps skip_url_def Let_def)

text \<open>
  C1. In the source the test at the head of \<open>process_url\<close> and
  \<open>self.queued_urls.add(url)\<close> follow each other with no \<open>await\<close> in between, so
  they are one step of a worker here (\<open>Get\<close>, and \<open>Wake\<close> for a retry); the fetcher
  is called in a later step (\<open>Acquire\<close>). In every state the workers reach from the
  start of \<open>crawl_parallel\<close>, whatever the order of their steps and whatever the queue
  holds (a URL may be on it several times, put there from different pages): no URL was
  handed to the fetcher twice; no two fetches in flight are of the same URL; every URL
  handed to the fetcher is in \<open>queued_urls\<close>; and a step that calls the fetcher calls
  it for a URL that was in \<open>queued_urls\<close> before the step and had not been fetched. A
  waiting worker with a permit does call the fetcher, and a worker that takes a URL off
  the queue either skips it or puts it into \<open>queued_urls\<close>, without fetching in that
  step. \<open>process_url\<close> returns the state as it is when the URL is in
  \<open>processed_urls\<close> or \<open>queued_urls\<close>, and otherwise calls the fetcher once, with the
  URL put into \<open>queued_urls\<close>.
\<close>

theorem at_most_one_fetch_per_url:
  "(let reached = run cfg evs (start_crawl cfg sm urls)
    in distinct (fetched (shared reached))
       \<and> distinct (in_flight cfg reached)
       \<and> set (in_flight cfg reached) \<subseteq> set (fetched (shared reached))
       \<and> set (fetched (shared reached)) \<subseteq> queued_urls (shared reached)
       \<and> (fetched (shared (step cfg e reached)) = fetched (shared reached)
          \<or> (\<exists>url. fetched (shared (step cfg e reached)) = fetched (shared reached) @ [url]
                 \<and> url \<in> queued_urls (shared reached)
                 \<and> url \<notin> set (fetched (shared reached)))))
   \<and> (workers st w = Waiting u rc held \<and> 0 < permits st \<longrightarrow>
        fetched (shared (step cfg (Acquire w) st)) = fetched (shared st) @ [u]
        \<and> workers (step cfg (Acquire w) st) w = Fetching u rc held)
   \<and> (workers st w = Idle \<and> w < cfg_max_concurrent cfg
        \<and> urls_to_process (shared st) = u # rest \<longrightarrow>
        (if skip_url (cfg_start_url cfg) u (shared st)
         then workers (step cfg (Get w) st) w = Idle
              \<and> queued_urls (shared (step cfg (Get w) st)) = queued_urls (shared st)
         else workers (step cfg (Get w) st) w = Waiting u 0 0
              \<and> queued_urls (shared (step cfg (Get w) st)) = insert u (queued_urls (shared st)))
        \<and> fetched (shared (step cfg (Get w) st)) = fetched (shared st))
   \<and> (u \<in> processed_urls s \<or> u \<in> queued_urls s \<longrightarrow> process_url cfg env u retry_count s = s)
   \<and> (\<not> skip_url (cfg_start_url cfg) u s \<longrightarrow>
        fetched (process_url cfg env u retry_count s) = fetched s @ [u]
        \<and> queued_urls (process_url cfg env u retry_count s) = insert u (queued_urls s))"
proof -
  define reached where "reached = run cfg evs (start_crawl cfg sm urls)"
  have inv: "crawl_inv reached"
    unfolding reached_def by (rule crawl_inv_run[OF crawl_inv_start])
  then have "distinct (fetched (shared reached))"
    "set (fetched (shared reached)) \<subseteq> queued_urls (shared reached)"
    unfolding crawl_inv_def by blast+
  with in_flight_inv[OF inv, of cfg] fetched_step[OF inv, of cfg e]
  have a: "distinct (fetched (shared reached))
       \<and> distinct (in_flight cfg reached)
       \<and> set (in_flight cfg reached) \<subseteq> set (fetched (shared reached))
       \<and> set (fetched (shared reached)) \<subseteq> queued_urls (shared reached)
       \<and> (fetched (shared (step cfg e reached)) = fetched (shared reached)
          \<or> (\<exists>url. fetched (shared (step cfg e reached)) = fetched (shared reached) @ [url]
                 \<and> url \<in> queued_urls (shared reached)
                 \<and> url \<notin> set (fetched (shared reached))))"
    by blast
  have b: "workers st w = Waiting u rc held \<and> 0 < permits st \<longrightarrow>
        fetched (shared (step cfg (Acquire w) st)) = fetched (shared st) @ [u]
        \<and> workers (step cfg (Acquire w) st) w = Fetching u rc held"
    using step_acquire[of st w u rc held cfg] by blast
  have c: "workers st w = Idle \<and> w < cfg_max_concurrent cfg
        \<and> urls_to_process (shared st) = u # rest \<longrightarrow>
        (if skip_url (cfg_start_url cfg) u (shared st)
         then workers (step cfg (Get w) st) w = Idle
              \<and> queued_urls (shared (step cfg (Get w) st)) = queued_urls (shared st)
         else workers (step cfg (Get w) st) w = Waiting u 0 0
              \<and> queued_urls (shared (step cfg (Get w) st)) = insert u (queued_urls (shared st)))
        \<and> fetched (shared (step cfg (Get w) st)) = fetched (shared st)"
    using step_get[of st w cfg u rest] by blast
  have d: "u \<in> processed_urls s \<or> u \<in> queued_urls s \<longrightarrow>
      process_url cfg env u retry_count s = s"
    by (auto simp: process_url_skip skip_url_def)
  have e: "\<not> skip_url (cfg_start_url cfg) u s \<longrightarrow>
        fetched (process_url cfg env u retry_count s) = fetched s @ [u]
        \<and> queued_urls (process_url cfg env u retry_count s) = insert u (queued_urls s)"
    using process_url_fetched[of cfg u s env retry_count] by blast
  note all = conjI[OF a conjI[OF b conjI[OF c conjI[OF d e]]]]
  then show ?thesis unfolding Let_def reached_def .
qed

theorem at_most_one_fetch_per_url_witness:
  "(let cfg = \<lparr>cfg_start_url = ''https://ex.com/docs'', cfg_max_concurrent = 2,
                cfg_max_retries = 3, cfg_urljoin = (\<lambda>base link. link)\<rparr>;
        sm = \<lparr>sm_domain = ''ex.com'', sm_start_url = ''https://ex.com/docs'', sm_urls = {}\<rparr>;
        env = \<lparr>arun = (\<lambda>url k. Failed), store_document = (\<lambda>url markdown. True)\<rparr>;
        st = run cfg [Get 0, Get 1, Acquire 0, Acquire 1, Fetch_done 0 Failed, Wake 0]
               (start_crawl cfg sm [''https://ex.com/docs/a'', ''https://ex.com/docs/a''])
    in fetched (shared st) = [''https://ex.com/docs/a'']
       \<and> ''https://ex.com/docs/a'' \<in> queued_urls (shared st)
       \<and> process_url cfg env ''https://ex.com/docs/a'' 0 (shared st) = shared st
       \<and> workers (run cfg [Get 0, Get 1]
            (start_crawl cfg sm [''https://ex.com/docs/a'', ''https://ex.com/docs/a''])) 0
           = Waiting ''https://ex.com/docs/a'' 0 0
       \<and> workers (run cfg [Get 0, Get 1]
            (start_crawl cfg sm [''https://ex.com/docs/a'', ''https://ex.com/docs/a''])) 1
           = Idle
       \<and> fetched (shared (run cfg [Get 0, Get 1, Acquire 0]
            (start_crawl cfg sm [''https://ex.com/docs/a'', ''https://ex.com/docs/a''])))
           = [''https://ex.com/docs/a''])"
proof -
  let ?cfg = "\<lparr>cfg_start_url = ''https://ex.com/docs'', cfg_max_concurrent = 2,
                cfg_max_retries = 3, cfg_urljoin = (\<lambda>base link. link)\<rparr>"
  let ?sm = "\<lparr>sm_domain = ''ex.com'', sm_start_url = ''https://ex.com/docs'', sm_urls = {}\<rparr>"
  let ?env = "\<lparr>arun = (\<lambda>url k. Failed), store_document = (\<lambda>url markdown. True)\<rparr>"
  let ?evs = "[Get 0, Get 1, Acquire 0, Acquire 1, Fetch_done 0 Failed, Wake 0]"
  let ?st = "run ?cfg ?evs (start_crawl ?cfg ?sm [''https://ex.com/docs/a'', ''https://ex.com/docs/a''])"
  have f: "fetched (shared ?st) = [''https://ex.com/docs/a'']" by code_simp
  have q: "''https://ex.com/docs/a'' \<in> queued_urls (shared ?st)" by code_simp
  from at_most_one_fetch_per_url[where cfg = ?cfg and evs = ?evs and sm = ?sm
      and urls = "[''https://ex.com/docs/a'', ''https://ex.com/docs/a'']"
      and e = "Get 0" and u = "''https://ex.com/docs/a''" and s = "shared ?st" and env = ?env
      and retry_count = 0 and st = ?st and w = 0 and rc = 0 and held = 0 and rest = "[]"]
  have "''https://ex.com/docs/a'' \<in> processed_urls (shared ?st)
      \<or> ''https://ex.com/docs/a'' \<in> queued_urls (shared ?st) \<longrightarrow>
      process_url ?cfg ?env ''https://ex.com/docs/a'' 0 (shared ?st) = shared ?st"
    by (elim conjE)
  with q have p: "process_url ?cfg ?env ''https://ex.com/docs/a'' 0 (shared ?st) = shared ?st"
    by blast
  have w0: "workers (run ?cfg [Get 0, Get 1]
        (start_crawl ?cfg ?sm [''https://ex.com/docs/a'', ''https://ex.com/docs/a''])) 0
      = Waiting ''https://ex.com/docs/a'' 0 0" by code_simp
  have w1: "workers (run ?cfg [Get 0, Get 1]
        (start_crawl ?cfg ?sm [''https://ex.com/docs/a'', ''https://ex.com/docs/a''])) 1
      = Idle" by code_simp
  have a0: "fetched (shared (run ?cfg [Get 0, Get 1, Acquire 0]
        (start_crawl ?cfg ?sm [''https://ex.com/docs/a'', ''https://ex.com/docs/a''])))
      = [''https://ex.com/docs/a'']" by code_simp
  from f q p w0 w1 a0 show ?thesis unfolding Let_def by (intro conjI)
qed

lemma process_url_failing:
  assumes ns: "\<not> skip_url (cfg_start_url cfg) url s"
    and fail: "arun env url (count_list (fetched s) url) = Failed
             \<or> arun env url (count_list (fetched s) url) = Raised"
  shows "process_url cfg env url retry_count s =
     (if retry_count < cfg_max_retries cfg
      then call_sleep (call_arun url (mark_queued url s))
      else call_arun url (mark_queued url s))"
proof -
  define s1 where "s1 = call_arun url (mark_queued url s)"
  have "url \<in> queued_urls (call_sleep s1)"
    by (simp add: s1_def shared_simps)
  then have "skip_url (cfg_start_url cfg) url (call_sleep s1)"
    by (simp add: skip_url_def)
  then have r: "process_url cfg env url (retry_count + 1) (call_sleep s1) = call_sleep s1"
    by (rule process_url_skip)
  from fail show ?thesis
  proof
    assume "arun env url (count_list (fetched s) url) = Failed"
    with ns r show ?thesis
      by (subst process_url.simps) (simp add: Let_def s1_def)
  next
    assume "arun env url (count_list (fetched s) url) = Raised"
    with ns r show ?thesis
      by (subst process_url.simps) (simp add: Let_def s1_def)
  qed
qed

text \<open>
  C2, at the failing input. When the first fetch of a URL fails (a result without
  \<open>success\<close>, or an exception), \<open>process_url\<close> calls the fetcher exactly once,
  whatever \<open>max_retries\<close> is: the retry sleeps once and calls \<open>process_url\<close> again,
  and that call returns at its first test, because the first call has put the URL into
  \<open>queued_urls\<close> and nothing takes it out. The URL is not added to
  \<open>processed_urls\<close> or to the sitemap and is not put on the queue again.
\<close>

theorem process_url_fetches_once:
  "\<not> skip_url (cfg_start_url cfg) url s
   \<and> (arun env url (count_list (fetched s) url) = Failed
        \<or> arun env url (count_list (fetched s) url) = Raised) \<longrightarrow>
   fetched (process_url cfg env url retry_count s) = fetched s @ [url]
   \<and> sleeps (process_url cfg env url retry_count s)
       = (if retry_count < cfg_max_retries cfg then sleeps s + 1 else sleeps s)
   \<and> processed_urls (process_url cfg env url retry_count s) = processed_urls s
   \<and> queued_urls (process_url cfg env url retry_count s) = insert url (queued_urls s)
   \<and> crawler_sitemap (process_url cfg env url retry_count s) = crawler_sitemap s
   \<and> urls_to_process (process_url cfg env url retry_count s) = urls_to_process s"
proof
  assume "\<not> skip_url (cfg_start_url cfg) url s
   \<and> (arun env url (count_list (fetched s) url) = Failed
        \<or> arun env url (count_list (fetched s) url) = Raised)"
  then have "process_url cfg env url retry_count s =
     (if retry_count < cfg_max_retries cfg
      then call_sleep (call_arun url (mark_queued url s))
      else call_arun url (mark_queued url s))"
    by (intro process_url_failing) blast+
  then show "fetched (process_url cfg env url retry_count s) = fetched s @ [url]
   \<and> sleeps (process_url cfg env url retry_count s)
       = (if retry_count < cfg_max_retries cfg then sleeps s + 1 else sleeps s)
   \<and> processed_urls (process_url cfg env url retry_count s) = processed_urls s
   \<and> queued_urls (process_url cfg env url retry_count s) = insert url (queued_urls s)
   \<and> crawler_sitemap (process_url cfg env url retry_count s) = crawler_sitemap s
   \<and> urls_to_process (process_url cfg env url retry_count s) = urls_to_process s"
    by (simp add: call_sleep_def call_arun_def mark_queued_def)
qed

theorem process_url_fetches_once_witness:
  "(let cfg = \<lparr>cfg_start_url = ''https://ex.com/docs'', cfg_max_concurrent = 5,
                cfg_max_retries = 3, cfg_urljoin = (\<lambda>base link. link)\<rparr>;
        env = \<lparr>arun = (\<lambda>url k. Failed), store_document = (\<lambda>url markdown. True)\<rparr>;
        s = \<lparr>processed_urls = {}, queued_urls = {},
             crawler_sitemap = \<lparr>sm_domain = ''ex.com'', sm_start_url = ''https://ex.com/docs'',
                                 sm_urls = {}\<rparr>,
             urls_to_process = [], progress = 0, fetched = [], sleeps = 0\<rparr>
    in \<not> skip_url (cfg_start_url cfg) ''https://ex.com/docs/a'' s
       \<and> arun env ''https://ex.com/docs/a'' (count_list (fetched s) ''https://ex.com/docs/a'') = Failed
       \<and> fetched (process_url cfg env ''https://ex.com/docs/a'' 0 s) = [''https://ex.com/docs/a'']
       \<and> sleeps (process_url cfg env ''https://ex.com/docs/a'' 0 s) = 1
       \<and> ''https://ex.com/docs/a'' \<notin> processed_urls (process_url cfg env ''https://ex.com/docs/a'' 0 s)
       \<and> sm_urls (crawler_sitemap (process_url cfg env ''https://ex.com/docs/a'' 0 s)) = {})"
proof -
  let ?cfg = "\<lparr>cfg_start_url = ''https://ex.com/docs'', cfg_max_concurrent = 5,
                cfg_max_retries = 3, cfg_urljoin = (\<lambda>base link. link)\<rparr>"
  let ?env = "\<lparr>arun = (\<lambda>url k. Failed), store_document = (\<lambda>url markdown. True)\<rparr>"
  let ?s = "\<lparr>processed_urls = {}, queued_urls = {},
             crawler_sitemap = \<lparr>sm_domain = ''ex.com'', sm_start_url = ''https://ex.com/docs'',
                                 sm_urls = {}\<rparr>,
             urls_to_process = [], progress = 0, fetched = [], sleeps = 0\<rparr>"
  have c: "should_crawl_url ''https://ex.com/docs/a'' ''https://ex.com/docs''" by code_simp
  then have ns: "\<not> skip_url (cfg_start_url ?cfg) ''https://ex.com/docs/a'' ?s"
    by (simp add: skip_url_def)
  have f: "arun ?env ''https://ex.com/docs/a'' (count_list (fetched ?s) ''https://ex.com/docs/a'') = Failed"
    by simp
  from process_url_fetches_once[of ?cfg "''https://ex.com/docs/a''" ?s ?env 0] ns f
  have "fetched (process_url ?cfg ?env ''https://ex.com/docs/a'' 0 ?s) = [] @ [''https://ex.com/docs/a'']
     \<and> sleeps (process_url ?cfg ?env ''https://ex.com/docs/a'' 0 ?s) = 0 + 1
     \<and> processed_urls (process_url ?cfg ?env ''https://ex.com/docs/a'' 0 ?s) = {}
     \<and> crawler_sitemap (process_url ?cfg ?env ''https://ex.com/docs/a'' 0 ?s)
         = \<lparr>sm_domain = ''ex.com'', sm_start_url = ''https://ex.com/docs'', sm_urls = {}\<rparr>"
    by simp
  with ns f show ?thesis unfolding Let_def by simp
qed

section \<open>Facts about the enrichment of a chunk\<close>

lemma retry_three_failures:
  assumes "func 0 = Inl e0" "func (Suc 0) = Inl e1" "func (Suc (Suc 0)) = Inl e2"
  shows "retry_with_backoff func 3 = (Inl e2, [1, 2])"
proof -
  have "retry_from func 3 (Suc (Suc 0)) [1, 2] = (Inl e2, [1, 2])"
    by (subst retry_from.simps) (simp add: assms)
  then have "retry_from func 3 (Suc 0) [1] = (Inl e2, [1, 2])"
    by (subst retry_from.simps) (simp add: assms)
  then have "retry_from func 3 0 [] = (Inl e2, [1, 2])"
    by (subst retry_from.simps) (simp add: assms)
  then show ?thesis by (simp add: retry_with_backoff_def)
qed

lemma get_embedding_all_fail:
  assumes "\<And>k. k < 3 \<Longrightarrow> \<exists>e. embedding_of (outcomes k) = Inl e"
  shows "get_embedding outcomes = (zero_embedding, [1, 2])"
proof -
  from assms[of 0] assms[of "Suc 0"] assms[of "Suc (Suc 0)"] obtain e0 e1 e2 where
    "embedding_of (outcomes 0) = Inl e0" "embedding_of (outcomes (Suc 0)) = Inl e1"
    "embedding_of (outcomes (Suc (Suc 0))) = Inl e2" by auto
  then have "retry_with_backoff (\<lambda>k. embedding_of (outcomes k)) 3 = (Inl e2, [1, 2])"
    by (intro retry_three_failures) simp_all
  then show ?thesis by (simp add: get_embedding_def)
qed

lemma get_title_and_summary_failure:
  "get_title_and_summary loads Transport_failed = error_pair"
  "get_title_and_summary loads Status_failed = error_pair"
  "get_title_and_summary loads (Body None) = error_pair"
  "loads data = None \<Longrightarrow>
     get_title_and_summary loads (Body (Some (JDict [(''response'', JStr data)]))) = error_pair"
  by (simp_all add: get_title_and_summary_def)

lemma process_chunk_all_fail:
  assumes "get_title_and_summary loads summary_outcome = error_pair"
    and "\<And>k. k < 3 \<Longrightarrow> \<exists>e. embedding_of (embed_outcomes k) = Inl e"
  shows "\<exists>c. process_chunk loads summary_outcome embed_outcomes now chunk chunk_number url = Inr c
           \<and> pc_title c = JStr ''Error processing title''
           \<and> pc_summary c = JStr ''Error processing summary''
           \<and> pc_embedding c = zero_embedding"
  using assms(1) get_embedding_all_fail[OF assms(2)]
  by (simp add: process_chunk_def Let_def subscript_def error_pair_def)

text \<open>
  C6, at the failing input. The server answers the request for title and summary with
  status 200 and a JSON body whose \<open>response\<close> is text that \<open>json.loads\<close> accepts
  but that is not an object with both keys: the object \<open>{"title": "Intro"}\<close>, or the
  JSON string \<open>"Intro"\<close>. \<open>get_title_and_summary\<close> returns what \<open>json.loads\<close>
  gives, not the pair of error texts, and \<open>process_chunk\<close> raises \<open>KeyError\<close> or
  \<open>TypeError\<close> at \<open>extracted['summary']\<close> or \<open>extracted['title']\<close> and yields no
  record.
\<close>

theorem enrichment_raises_on_wrong_shape:
  "(let title_only = ''{'' @ dquote @ ''title'' @ dquote @ '': '' @ dquote @ ''Intro'' @ dquote @ ''}'';
        quoted = dquote @ ''Intro'' @ dquote;
        loads = (\<lambda>s. if s = title_only then Some (JDict [(''title'', JStr ''Intro'')])
                      else if s = quoted then Some (JStr ''Intro'')
                      else None);
        reply1 = Body (Some (JDict [(''response'', JStr title_only), (''done'', JBool True)]));
        reply2 = Body (Some (JDict [(''response'', JStr quoted), (''done'', JBool True)]))
    in get_title_and_summary loads reply1 = JDict [(''title'', JStr ''Intro'')]
       \<and> process_chunk loads reply1 (\<lambda>k. Transport_failed) ''2024-01-01T00:00:00+00:00''
            ''Some text.'' 0 ''https://ex.com/docs'' = Inl KeyError
       \<and> get_title_and_summary loads reply2 = JStr ''Intro''
       \<and> process_chunk loads reply2 (\<lambda>k. Transport_failed) ''2024-01-01T00:00:00+00:00''
            ''Some text.'' 0 ''https://ex.com/docs'' = Inl TypeError)"
  by code_simp

text \<open>
  The parts of C6 that hold. When the request for title and summary fails in
  transport, or with an error status, or with a body that is not JSON, or with a
  \<open>response\<close> text that \<open>json.loads\<close> rejects, \<open>get_title_and_summary\<close> returns
  the pair of error texts, from that one request.
\<close>

theorem summary_failure_gives_error_pair:
  "get_title_and_summary loads Transport_failed = error_pair
   \<and> get_title_and_summary loads Status_failed = error_pair
   \<and> get_title_and_summary loads (Body None) = error_pair
   \<and> (loads data = None \<longrightarrow>
        get_title_and_summary loads (Body (Some (JDict [(''response'', JStr data)]))) = error_pair)
   \<and> error_pair = JDict [(''title'', JStr ''Error processing title''),
                          (''summary'', JStr ''Error processing summary'')]"
  by (simp add: get_title_and_summary_def error_pair_def)

theorem summary_failure_gives_error_pair_witness:
  "(\<lambda>s. None :: json option) ''not json'' = None
   \<and> get_title_and_summary (\<lambda>s. None) (Body (Some (JDict [(''response'', JStr ''not json'')])))
       = JDict [(''title'', JStr ''Error processing title''),
                (''summary'', JStr ''Error processing summary'')]"
  using summary_failure_gives_error_pair[of "\<lambda>s. None" "''not json''"] by simp

text \<open>
  When each of the three requests for the embedding fails (in transport, with an
  error status, with a body that is not JSON, or with a body that is no object),
  \<open>get_embedding\<close> returns the list of 768 zeros, after waiting 1 and then 2 seconds;
  and if the request for title and summary failed as above, \<open>process_chunk\<close> returns
  a record with the two error texts and that embedding.
\<close>

theorem embedding_failure_gives_zero_vector:
  "(\<forall>k < 3. \<exists>e. embedding_of (embed_outcomes k) = Inl e) \<longrightarrow>
     get_embedding embed_outcomes = (JList (replicate 768 (JNum 0)), [1, 2])
     \<and> (get_title_and_summary loads summary_outcome = error_pair \<longrightarrow>
          (\<exists>c. process_chunk loads summary_outcome embed_outcomes now chunk chunk_number url = Inr c
               \<and> pc_title c = JStr ''Error processing title''
               \<and> pc_summary c = JStr ''Error processing summary''
               \<and> pc_embedding c = JList (replicate 768 (JNum 0))))"
proof (intro impI conjI)
  assume a: "\<forall>k < 3. \<exists>e. embedding_of (embed_outcomes k) = Inl e"
  then show "get_embedding embed_outcomes = (JList (replicate 768 (JNum 0)), [1, 2])"
    using get_embedding_all_fail[of embed_outcomes] by (simp add: zero_embedding_def)
  assume "get_title_and_summary loads summary_outcome = error_pair"
  with a show "\<exists>c. process_chunk loads summary_outcome embed_outcomes now chunk chunk_number url = Inr c
               \<and> pc_title c = JStr ''Error processing title''
               \<and> pc_summary c = JStr ''Error processing summary''
               \<and> pc_embedding c = JList (replicate 768 (JNum 0))"
    using process_chunk_all_fail[of loads summary_outcome embed_outcomes now chunk chunk_number url]
    by (simp add: zero_embedding_def)
qed

theorem embedding_failure_gives_zero_vector_witness:
  "embedding_of Transport_failed = Inl TransportError
   \<and> get_embedding (\<lambda>k. Transport_failed) = (JList (replicate 768 (JNum 0)), [1, 2])"
proof -
  have e: "embedding_of Transport_failed = Inl TransportError"
    by (simp add: embedding_of_def)
  then have "\<forall>k < 3. \<exists>e. embedding_of ((\<lambda>k. Transport_failed) k) = Inl e" by simp
  with embedding_failure_gives_zero_vector[of "\<lambda>k. Transport_failed"]
  have "get_embedding (\<lambda>k. Transport_failed) = (JList (replicate 768 (JNum 0)), [1, 2])"
    by blast
  with e show ?thesis by (rule conjI)
qed

end
